theory Spec2Isabelle
  imports Main "HOL-Library.Sublist"
begin

section \<open>Data model\<close>

text \<open>
  A Python \<open>str\<close> is modelled as a \<^typ>\<open>string\<close> whose characters are the code points
  below 256. A CSV file is modelled by what \<open>csv.reader\<close> yields for it: the list of its
  rows, each row a list of cells (a blank line is the empty row). Column indices are the
  positions \<open>enumerate\<close> yields, hence naturals. Byte strings are lists of
  \<^typ>\<open>char\<close> as well, a \<^typ>\<open>char\<close> being one byte.
\<close>

type_synonym row = "string list"
type_synonym csv_rows = "row list"
type_synonym bytes = "char list"

text \<open>
  \<open>NoInputFiles\<close> and \<open>EmptyInputSet\<close> are the two \<open>SystemExit\<close>s of \<open>combine_csvs\<close>;
  \<open>IndexError\<close> is what a list read out of range raises, \<open>CsvError\<close> is \<open>csv.Error\<close>.
\<close>

datatype error = NoInputFiles | EmptyInputSet | IndexError | CsvError

text \<open>An entry of the input directory: its name, whether it is a regular file, its rows.\<close>

record dir_entry =
  entry_name :: string
  entry_isfile :: bool
  entry_rows :: csv_rows

record totals =
  files :: nat
  rows_in :: nat
  duplicates_skipped :: nat
  rows_out :: nat

text \<open>
  The mutable state of one run of \<open>combine_csvs\<close>: the counters, the two sets of seen keys
  and the rows written to the output file so far (\<open>out_f\<close>, the header row included).
\<close>

record 'd run_state = totals +
  seen_full_rows :: "'d set"
  seen_keys :: "string list set"
  out_f :: csv_rows

section \<open>Strings\<close>

text \<open>\<open>str.isspace\<close>, \<open>str.isdigit\<close> and \<open>str.lower\<close> on the code points below 256.\<close>

definition py_isspace :: "char \<Rightarrow> bool" where
  "py_isspace c = ((of_char c :: nat) \<in> {9, 10, 11, 12, 13, 28, 29, 30, 31, 32, 133, 160})"

definition strip :: "string \<Rightarrow> string" where
  "strip s = rev (dropWhile py_isspace (rev (dropWhile py_isspace s)))"

definition ascii_digit :: "char \<Rightarrow> bool" where
  "ascii_digit c = (48 \<le> (of_char c :: nat) \<and> (of_char c :: nat) \<le> 57)"

definition py_isdigit_char :: "char \<Rightarrow> bool" where
  "py_isdigit_char c = (ascii_digit c \<or> (of_char c :: nat) \<in> {178, 179, 185})"

definition isdigit :: "string \<Rightarrow> bool" where
  "isdigit s = (s \<noteq> [] \<and> list_all py_isdigit_char s)"

definition lower_char :: "char \<Rightarrow> char" where
  "lower_char c =
     (let n = of_char c :: nat
      in if (65 \<le> n \<and> n \<le> 90) \<or> (192 \<le> n \<and> n \<le> 222 \<and> n \<noteq> 215)
         then char_of (n + 32) else c)"

definition lower :: "string \<Rightarrow> string" where
  "lower s = map lower_char s"

definition startswith :: "string \<Rightarrow> string \<Rightarrow> bool" where
  "startswith s p = (take (length p) s = p)"

definition endswith :: "string \<Rightarrow> string \<Rightarrow> bool" where
  "endswith s p = (length p \<le> length s \<and> drop (length s - length p) s = p)"

fun join :: "string \<Rightarrow> string list \<Rightarrow> string" where
  "join sep [] = []"
| "join sep [x] = x"
| "join sep (x # y # ys) = x @ sep @ join sep (y # ys)"

text \<open>\<open>str.encode('utf-8')\<close> on code points below 256: one byte below 128, two from there.\<close>

definition utf8_char :: "char \<Rightarrow> bytes" where
  "utf8_char c =
     (let n = of_char c :: nat
      in if n < 128 then [c] else [char_of (192 + n div 64), char_of (128 + n mod 64)])"

definition encode_utf8 :: "string \<Rightarrow> bytes" where
  "encode_utf8 s = concat (map utf8_char s)"

section \<open>Floating point: \<open>float(s)\<close>, \<open>is_integer\<close>, \<open>int\<close>, \<open>str\<close>\<close>

text \<open>
  A non-negative binary64 value is \<open>Finite m e\<close>, standing for \<open>m * 2 ^ e\<close>, or \<open>Inf\<close>.
  \<open>binary64_of_ratio n d\<close> is the double nearest to \<open>n / d\<close> (ties to even, 53 bits of
  precision, exponent not below \<open>-1074\<close>, infinity from \<open>2 ^ 1024\<close> on), which is what
  \<open>float\<close> returns for a decimal numeral.
\<close>

datatype pyfloat = Finite nat int | Inf

definition round_half_even :: "nat \<Rightarrow> nat \<Rightarrow> nat" where
  "round_half_even n d =
     (let q = n div d; r = n mod d
      in if 2 * r < d then q else if d < 2 * r then q + 1 else if even q then q else q + 1)"

fun bitlen :: "nat \<Rightarrow> nat" where
  "bitlen n = (if n = 0 then 0 else Suc (bitlen (n div 2)))"

definition ratio_ge_pow2 :: "nat \<Rightarrow> nat \<Rightarrow> int \<Rightarrow> bool" where
  "ratio_ge_pow2 n d k = (if 0 \<le> k then d * 2 ^ nat k \<le> n else d \<le> n * 2 ^ nat (- k))"

definition scale_round :: "nat \<Rightarrow> nat \<Rightarrow> int \<Rightarrow> nat" where
  "scale_round n d e =
     (if 0 \<le> e then round_half_even n (d * 2 ^ nat e)
      else round_half_even (n * 2 ^ nat (- e)) d)"

definition binary64_of_ratio :: "nat \<Rightarrow> nat \<Rightarrow> pyfloat" where
  "binary64_of_ratio n d =
     (if n = 0 then Finite 0 0
      else
        let c = int (bitlen n) - int (bitlen d);
            E = (if ratio_ge_pow2 n d c then c else c - 1);
            e = max (E - 52) (- 1074);
            m = scale_round n d e
        in if 0 \<le> e \<and> 2 ^ 1024 \<le> m * 2 ^ nat e then Inf else Finite m e)"

definition decimal_value :: "string \<Rightarrow> nat" where
  "decimal_value s = foldl (\<lambda>n c. 10 * n + (of_char c - 48)) 0 s"

text \<open>
  \<open>float(s)\<close> on the strings the guard of \<open>_normalize_for_key\<close> lets through (digits in the
  sense of \<open>str.isdigit\<close> and at most one point): \<open>None\<close> is the \<open>ValueError\<close> raised when
  a digit is not an ASCII digit.
\<close>

definition py_float :: "string \<Rightarrow> pyfloat option" where
  "py_float s =
     (let ip = takeWhile (\<lambda>c. c \<noteq> CHR ''.'') s;
          fp = drop 1 (dropWhile (\<lambda>c. c \<noteq> CHR ''.'') s)
      in if list_all ascii_digit (ip @ fp) \<and> ip @ fp \<noteq> []
         then Some (binary64_of_ratio (decimal_value (ip @ fp)) (10 ^ length fp))
         else None)"

fun is_integer :: "pyfloat \<Rightarrow> bool" where
  "is_integer (Finite m e) = (0 \<le> e \<or> m mod 2 ^ nat (- e) = 0)"
| "is_integer Inf = False"

fun int_of_float :: "pyfloat \<Rightarrow> nat" where
  "int_of_float (Finite m e) = (if 0 \<le> e then m * 2 ^ nat e else m div 2 ^ nat (- e))"
| "int_of_float Inf = 0"

fun str_nat :: "nat \<Rightarrow> string" where
  "str_nat n =
     (if n < 10 then [char_of (48 + n)] else str_nat (n div 10) @ [char_of (48 + n mod 10)])"

section \<open>The csv module\<close>

text \<open>
  A dialect, with the attributes the sniffer sets. The other attributes are those of
  \<open>csv.excel\<close> and of every sniffed dialect: no escape character, \<open>QUOTE_MINIMAL\<close>, not
  strict, line terminator \<open>\r\n\<close>.
\<close>

record dialect =
  delimiter :: char
  quotechar :: char
  doublequote :: bool
  skipinitialspace :: bool


text \<open>
  \<open>writer.writerow\<close>. A field is quoted when it holds the delimiter, the quote character
  or a character of the line terminator; a quote character in a field is doubled, or,
  when the dialect does not double quotes, \<open>csv.Error\<close> is raised (need to escape, but no
  escapechar set). A row of one empty field is written as two quote characters.
\<close>

definition needs_quoting :: "dialect \<Rightarrow> string \<Rightarrow> bool" where
  "needs_quoting d cell =
     list_ex (\<lambda>c. c = delimiter d \<or> c = quotechar d \<or> c = CHR 0x0D \<or> c = CHR 0x0A) cell"

definition format_field :: "dialect \<Rightarrow> string \<Rightarrow> string" where
  "format_field d cell =
     (if needs_quoting d cell
      then [quotechar d] @ concat (map (\<lambda>c. if c = quotechar d then [c, c] else [c]) cell) @
           [quotechar d]
      else cell)"

definition format_row :: "dialect \<Rightarrow> row \<Rightarrow> string" where
  "format_row d cells =
     (if cells = [[]] then [quotechar d, quotechar d]
      else join [delimiter d] (map (format_field d) cells)) @ [CHR 0x0D, CHR 0x0A]"

definition writable :: "dialect \<Rightarrow> row \<Rightarrow> bool" where
  "writable d cells = (doublequote d \<or> list_all (\<lambda>cell. quotechar d \<notin> set cell) cells)"

definition writerow :: "dialect \<Rightarrow> row \<Rightarrow> error + string" where
  "writerow d cells = (if writable d cells then Inr (format_row d cells) else Inl CsvError)"


text \<open>
  \<open>csv.reader\<close>: the states of the parser (those reached without an escape character),
  and the step for one character of a line, \<open>None\<close> standing for the end of the line. The
  parser state is the state, the field being read and the fields of the record so far.
\<close>

datatype parser_state =
  START_RECORD | START_FIELD | IN_FIELD | IN_QUOTED_FIELD | QUOTE_IN_QUOTED_FIELD | EAT_CRNL

type_synonym parser = "parser_state \<times> string \<times> row"

definition is_newline :: "char \<Rightarrow> bool" where
  "is_newline c = (c = CHR 0x0A \<or> c = CHR 0x0D)"

definition start_field :: "dialect \<Rightarrow> string \<Rightarrow> row \<Rightarrow> char \<Rightarrow> parser" where
  "start_field d cur cells c =
     (if is_newline c then (EAT_CRNL, [], cells @ [cur])
      else if c = quotechar d then (IN_QUOTED_FIELD, cur, cells)
      else if c = CHR '' '' \<and> skipinitialspace d then (START_FIELD, cur, cells)
      else if c = delimiter d then (START_FIELD, [], cells @ [cur])
      else (IN_FIELD, cur @ [c], cells))"

fun parse_process_char :: "dialect \<Rightarrow> parser \<Rightarrow> char option \<Rightarrow> error + parser" where
  "parse_process_char d (START_RECORD, cur, cells) None = Inr (START_RECORD, cur, cells)"
| "parse_process_char d (START_RECORD, cur, cells) (Some c) =
     (if is_newline c then Inr (EAT_CRNL, cur, cells) else Inr (start_field d cur cells c))"
| "parse_process_char d (START_FIELD, cur, cells) None = Inr (START_RECORD, [], cells @ [cur])"
| "parse_process_char d (START_FIELD, cur, cells) (Some c) = Inr (start_field d cur cells c)"
| "parse_process_char d (IN_FIELD, cur, cells) None = Inr (START_RECORD, [], cells @ [cur])"
| "parse_process_char d (IN_FIELD, cur, cells) (Some c) =
     (if is_newline c then Inr (EAT_CRNL, [], cells @ [cur])
      else if c = delimiter d then Inr (START_FIELD, [], cells @ [cur])
      else Inr (IN_FIELD, cur @ [c], cells))"
| "parse_process_char d (IN_QUOTED_FIELD, cur, cells) None = Inr (IN_QUOTED_FIELD, cur, cells)"
| "parse_process_char d (IN_QUOTED_FIELD, cur, cells) (Some c) =
     (if c = quotechar d
      then (if doublequote d then Inr (QUOTE_IN_QUOTED_FIELD, cur, cells)
            else Inr (IN_FIELD, cur, cells))
      else Inr (IN_QUOTED_FIELD, cur @ [c], cells))"
| "parse_process_char d (QUOTE_IN_QUOTED_FIELD, cur, cells) None =
     Inr (START_RECORD, [], cells @ [cur])"
| "parse_process_char d (QUOTE_IN_QUOTED_FIELD, cur, cells) (Some c) =
     (if c = quotechar d then Inr (IN_QUOTED_FIELD, cur @ [c], cells)
      else if c = delimiter d then Inr (START_FIELD, [], cells @ [cur])
      else if is_newline c then Inr (EAT_CRNL, [], cells @ [cur])
      else Inr (IN_FIELD, cur @ [c], cells))"
| "parse_process_char d (EAT_CRNL, cur, cells) None = Inr (START_RECORD, cur, cells)"
| "parse_process_char d (EAT_CRNL, cur, cells) (Some c) =
     (if is_newline c then Inr (EAT_CRNL, cur, cells) else Inl CsvError)"

fun parse_line :: "dialect \<Rightarrow> parser \<Rightarrow> string \<Rightarrow> error + parser" where
  "parse_line d p [] = parse_process_char d p None"
| "parse_line d p (c # cs) =
     (case parse_process_char d p (Some c) of
        Inl err \<Rightarrow> Inl err
      | Inr p' \<Rightarrow> parse_line d p' cs)"

text \<open>
  The rows the reader yields for the lines of a file. A record ends with the line on
  which the parser returns to \<open>START_RECORD\<close>; at the end of the input an unfinished
  quoted field ends the last record.
\<close>

fun reader_rows :: "dialect \<Rightarrow> parser \<Rightarrow> string list \<Rightarrow> error + csv_rows" where
  "reader_rows d (st, cur, cells) [] =
     (if cur \<noteq> [] \<or> st = IN_QUOTED_FIELD then Inr [cells @ [cur]] else Inr [])"
| "reader_rows d p (line # lines) =
     (case parse_line d p line of
        Inl err \<Rightarrow> Inl err
      | Inr (st, cur, cells) \<Rightarrow>
          if st = START_RECORD
          then (case reader_rows d (START_RECORD, [], []) lines of
                  Inl err \<Rightarrow> Inl err
                | Inr rows \<Rightarrow> Inr (cells # rows))
          else reader_rows d (st, cur, cells) lines)"




section \<open>combine\_csvs.py\<close>

text \<open>
  \<open>list_csvs\<close>: the directory is given as the entries in the order of
  \<open>sorted(os.listdir(directory))\<close>.
\<close>

definition is_csv_file :: "dir_entry \<Rightarrow> bool" where
  "is_csv_file e = (entry_isfile e \<and> endswith (lower (entry_name e)) ''.csv'')"

definition list_csvs :: "dir_entry list \<Rightarrow> dir_entry list" where
  "list_csvs directory = filter is_csv_file directory"

definition read_header :: "csv_rows \<Rightarrow> row" where
  "read_header rows = (case rows of [] \<Rightarrow> [] | header # _ \<Rightarrow> header)"

text \<open>
  \<open>idx_by_name = {name: i for i, name in enumerate(src_header)}\<close>: the dictionary is
  filled from left to right, a later entry replacing an earlier one with the same key.
\<close>

definition idx_by_name :: "string list \<Rightarrow> (string \<rightharpoonup> nat)" where
  "idx_by_name header = fold (\<lambda>(i, name) m. m(name \<mapsto> i)) (enumerate 0 header) Map.empty"

definition build_index_map :: "string list \<Rightarrow> string list \<Rightarrow> nat option list" where
  "build_index_map src_header dst_header = map (idx_by_name src_header) dst_header"

fun row_to_dst :: "row \<Rightarrow> nat option list \<Rightarrow> row" where
  "row_to_dst row [] = []"
| "row_to_dst row (idx # idx_map) =
     (case idx of
        None \<Rightarrow> ''''
      | Some i \<Rightarrow> if i < length row then row ! i else '''') # row_to_dst row idx_map"

text \<open>
  \<open>hash_row\<close>: the digest function of \<open>hashlib\<close> is a parameter of the model, \<open>sha256\<close>,
  from the bytes hashed to the digest.
\<close>

definition hash_row :: "(bytes \<Rightarrow> 'd) \<Rightarrow> row \<Rightarrow> 'd" where
  "hash_row sha256 cells = sha256 (encode_utf8 (join [CHR 0x00] cells))"

definition normalize_for_key :: "string \<Rightarrow> string" where
  "normalize_for_key val =
     (let s = strip val
      in if isdigit (remove1 CHR ''.'' s)
         then (case py_float s of
                 Some f \<Rightarrow> if is_integer f then str_nat (int_of_float f) else lower s
               | None \<Rightarrow> lower s)
         else lower s)"

text \<open>The loop of \<open>combine_csvs\<close> that looks for the first non-empty header.\<close>

fun first_header :: "csv_rows list \<Rightarrow> row" where
  "first_header [] = []"
| "first_header (f # fs) = (let hdr = read_header f in if hdr \<noteq> [] then hdr else first_header fs)"

definition KEY_COLUMNS :: "string list" where
  "KEY_COLUMNS = [''game_id'', ''play_id'']"

definition key_idx_of :: "row \<Rightarrow> nat option list" where
  "key_idx_of canonical_header = map (idx_by_name canonical_header) KEY_COLUMNS"

definition use_key_of :: "row \<Rightarrow> bool" where
  "use_key_of canonical_header = list_all (\<lambda>i. i \<noteq> None) (key_idx_of canonical_header)"

text \<open>
  \<open>tuple(_normalize_for_key(out_row[i]) for i in key_idx if i is not None)\<close>; the read
  \<open>out_row[i]\<close> raises \<open>IndexError\<close> out of range.
\<close>

fun key_tuple :: "row \<Rightarrow> nat option list \<Rightarrow> error + string list" where
  "key_tuple out_row [] = Inr []"
| "key_tuple out_row (None # key_idx) = key_tuple out_row key_idx"
| "key_tuple out_row (Some i # key_idx) =
     (if i < length out_row
      then (case key_tuple out_row key_idx of
              Inl err \<Rightarrow> Inl err
            | Inr ks \<Rightarrow> Inr (normalize_for_key (out_row ! i) # ks))
      else Inl IndexError)"

text \<open>
  The body of the row loop, in the three steps of the source: the check against
  \<open>seen_keys\<close>, the check against \<open>seen_full_rows\<close>, and the write. Each check returns the
  state and the flag \<open>is_dup\<close>. An exception is returned with the state it leaves behind.
\<close>

definition key_check ::
  "nat option list \<Rightarrow> row \<Rightarrow> 'd run_state \<Rightarrow> (error \<times> 'd run_state) + ('d run_state \<times> bool)" where
  "key_check key_idx out_row st =
     (case key_tuple out_row key_idx of
        Inl err \<Rightarrow> Inl (err, st)
      | Inr k_tuple \<Rightarrow>
          if k_tuple \<in> seen_keys st
          then Inr (st\<lparr>duplicates_skipped := duplicates_skipped st + 1\<rparr>, True)
          else Inr (st\<lparr>seen_keys := insert k_tuple (seen_keys st)\<rparr>, False))"

definition hash_check :: "(bytes \<Rightarrow> 'd) \<Rightarrow> row \<Rightarrow> 'd run_state \<Rightarrow> 'd run_state \<times> bool" where
  "hash_check sha256 out_row st =
     (let key_hash = hash_row sha256 out_row
      in if key_hash \<in> seen_full_rows st
         then (st\<lparr>duplicates_skipped := duplicates_skipped st + 1\<rparr>, True)
         else (st\<lparr>seen_full_rows := insert key_hash (seen_full_rows st)\<rparr>, False))"

definition write_row :: "row \<Rightarrow> 'd run_state \<times> bool \<Rightarrow> 'd run_state" where
  "write_row out_row p =
     (case p of
        (st, is_dup) \<Rightarrow>
          if is_dup then st
          else st\<lparr>out_f := out_f st @ [out_row], rows_out := rows_out st + 1\<rparr>)"

definition process_row ::
  "(bytes \<Rightarrow> 'd) \<Rightarrow> bool \<Rightarrow> nat option list \<Rightarrow> nat option list \<Rightarrow> 'd run_state \<Rightarrow> row
   \<Rightarrow> (error \<times> 'd run_state) + 'd run_state" where
  "process_row sha256 use_key key_idx idx_map st row =
     (let st1 = st\<lparr>rows_in := rows_in st + 1\<rparr>;
          out_row = row_to_dst row idx_map
      in case (if use_key then key_check key_idx out_row st1 else Inr (st1, False)) of
           Inl err \<Rightarrow> Inl err
         | Inr (st2, is_dup) \<Rightarrow>
             Inr (write_row out_row
                    (if \<not> use_key \<and> \<not> is_dup then hash_check sha256 out_row st2
                     else (st2, is_dup))))"

fun process_rows ::
  "(bytes \<Rightarrow> 'd) \<Rightarrow> bool \<Rightarrow> nat option list \<Rightarrow> nat option list \<Rightarrow> 'd run_state \<Rightarrow> csv_rows
   \<Rightarrow> (error \<times> 'd run_state) + 'd run_state" where
  "process_rows sha256 use_key key_idx idx_map st [] = Inr st"
| "process_rows sha256 use_key key_idx idx_map st (row # rows) =
     (case process_row sha256 use_key key_idx idx_map st row of
        Inl err \<Rightarrow> Inl err
      | Inr st' \<Rightarrow> process_rows sha256 use_key key_idx idx_map st' rows)"

definition process_file ::
  "(bytes \<Rightarrow> 'd) \<Rightarrow> bool \<Rightarrow> nat option list \<Rightarrow> row \<Rightarrow> 'd run_state \<Rightarrow> csv_rows
   \<Rightarrow> (error \<times> 'd run_state) + 'd run_state" where
  "process_file sha256 use_key key_idx canonical_header st rows =
     (let st1 = st\<lparr>files := files st + 1\<rparr>
      in case rows of
           [] \<Rightarrow> Inr st1
         | src_header # data \<Rightarrow>
             process_rows sha256 use_key key_idx (build_index_map src_header canonical_header)
               st1 data)"

fun process_files ::
  "(bytes \<Rightarrow> 'd) \<Rightarrow> bool \<Rightarrow> nat option list \<Rightarrow> row \<Rightarrow> 'd run_state \<Rightarrow> csv_rows list
   \<Rightarrow> (error \<times> 'd run_state) + 'd run_state" where
  "process_files sha256 use_key key_idx canonical_header st [] = Inr st"
| "process_files sha256 use_key key_idx canonical_header st (f # fs) =
     (case process_file sha256 use_key key_idx canonical_header st f of
        Inl err \<Rightarrow> Inl err
      | Inr st' \<Rightarrow> process_files sha256 use_key key_idx canonical_header st' fs)"

definition initial_state :: "row \<Rightarrow> 'd run_state" where
  "initial_state canonical_header =
     \<lparr>files = 0, rows_in = 0, duplicates_skipped = 0, rows_out = 0,
      seen_full_rows = {}, seen_keys = {}, out_f = [canonical_header]\<rparr>"

text \<open>
  \<open>combine_csvs\<close>. The input directory and the output file are distinct, and the calls of
  the file system succeed. The third argument is the output file before the call
  (\<open>None\<close>: there is no such file), the second component of the result the output file
  after it. The first component is the dictionary returned, or the exception raised.
\<close>

definition combine_csvs ::
  "(bytes \<Rightarrow> 'd) \<Rightarrow> dir_entry list \<Rightarrow> csv_rows option \<Rightarrow> (error + totals) \<times> csv_rows option" where
  "combine_csvs sha256 input_dir output_csv =
     (let fs = list_csvs input_dir
      in if fs = [] then (Inl NoInputFiles, output_csv)
         else
           let canonical_header = first_header (map entry_rows fs)
           in if canonical_header = [] then (Inl EmptyInputSet, output_csv)
              else
                (case process_files sha256 (use_key_of canonical_header)
                        (key_idx_of canonical_header) canonical_header
                        (initial_state canonical_header) (map entry_rows fs) of
                   Inl (err, st) \<Rightarrow> (Inl err, Some (out_f st))
                 | Inr st \<Rightarrow> (Inr (totals.truncate st), Some (out_f st))))"

section \<open>remove\_unnamed\_columns.py\<close>

text \<open>\<open>[row[i] for i in keep_idx]\<close>, a read out of range raising \<open>IndexError\<close>.\<close>

fun select_cells :: "row \<Rightarrow> nat list \<Rightarrow> error + row" where
  "select_cells row [] = Inr []"
| "select_cells row (i # keep_idx) =
     (if i < length row
      then (case select_cells row keep_idx of
              Inl err \<Rightarrow> Inl err
            | Inr cells \<Rightarrow> Inr (row ! i # cells))
      else Inl IndexError)"

definition pad_row :: "row \<Rightarrow> row \<Rightarrow> row" where
  "pad_row header row =
     (if length row < length header then row @ replicate (length header - length row) ''''
      else row)"

text \<open>
  The loop over the data rows: each row is padded, filtered and written with
  \<open>csv.writer(tmp, dialect)\<close>, which raises \<open>csv.Error\<close> on a row it cannot write.
\<close>

fun filter_rows :: "dialect \<Rightarrow> row \<Rightarrow> nat list \<Rightarrow> csv_rows \<Rightarrow> error + csv_rows" where
  "filter_rows d header keep_idx [] = Inr []"
| "filter_rows d header keep_idx (row # rows) =
     (case select_cells (pad_row header row) keep_idx of
        Inl err \<Rightarrow> Inl err
      | Inr cells \<Rightarrow>
          (case writerow d cells of
             Inl err \<Rightarrow> Inl err
           | Inr line \<Rightarrow>
               (case filter_rows d header keep_idx rows of
                  Inl err \<Rightarrow> Inl err
                | Inr rest \<Rightarrow> Inr (cells # rest))))"

text \<open>
  \<open>remove_unnamed_columns\<close> takes the dialect found for the file (the sniffed one, or
  \<open>csv.excel\<close>) and the rows read under it, and returns the number of columns removed with
  the rows of the file after the call. When an exception is raised \<open>os.replace\<close> is not
  reached: the file is left as it was.
\<close>

definition remove_unnamed_columns :: "dialect \<Rightarrow> csv_rows \<Rightarrow> error + (nat \<times> csv_rows)" where
  "remove_unnamed_columns d rows =
     (case rows of
        [] \<Rightarrow> Inr (0, rows)
      | header # data \<Rightarrow>
          let keep_idx = map fst (filter (\<lambda>(i, h). \<not> startswith (strip h) ''Unnamed'')
                                    (enumerate 0 header));
              removed = length header - length keep_idx
          in if removed = 0 then Inr (0, rows)
             else
               (case select_cells header keep_idx of
                  Inl err \<Rightarrow> Inl err
                | Inr header' \<Rightarrow>
                    (case writerow d header' of
                       Inl err \<Rightarrow> Inl err
                     | Inr line \<Rightarrow>
                         (case filter_rows d header keep_idx data of
                            Inl err \<Rightarrow> Inl err
                          | Inr data' \<Rightarrow> Inr (removed, header' # data')))))"

section \<open>Notions used to state the properties of the merge\<close>

text \<open>
  \<open>keep_first key seen xs\<close> keeps, in order, the elements of \<open>xs\<close> whose key is neither in
  \<open>seen\<close> nor the key of an earlier element of \<open>xs\<close>: first occurrence wins.
\<close>

fun keep_first :: "('a \<Rightarrow> 'k) \<Rightarrow> 'k set \<Rightarrow> 'a list \<Rightarrow> 'a list" where
  "keep_first key seen [] = []"
| "keep_first key seen (x # xs) =
     (if key x \<in> seen then keep_first key seen xs
      else x # keep_first key (insert (key x) seen) xs)"

text \<open>The key tuple of an output row, when no read is out of range.\<close>

fun key_cells :: "row \<Rightarrow> nat option list \<Rightarrow> string list" where
  "key_cells out_row [] = []"
| "key_cells out_row (None # key_idx) = key_cells out_row key_idx"
| "key_cells out_row (Some i # key_idx) = normalize_for_key (out_row ! i) # key_cells out_row key_idx"

text \<open>
  The deduplication key of an output row: the key tuple in semantic-key mode, the digest
  of the row otherwise; and the keys seen so far in a state, of both kinds.
\<close>

definition dedup_key :: "(bytes \<Rightarrow> 'd) \<Rightarrow> bool \<Rightarrow> nat option list \<Rightarrow> row \<Rightarrow> string list + 'd" where
  "dedup_key sha256 use_key key_idx out_row =
     (if use_key then Inl (key_cells out_row key_idx) else Inr (hash_row sha256 out_row))"

definition seen_of :: "'d run_state \<Rightarrow> (string list + 'd) set" where
  "seen_of st = Inl ` seen_keys st \<union> Inr ` seen_full_rows st"

text \<open>The data rows of one input file, each mapped to the canonical header.\<close>

definition mapped_rows :: "row \<Rightarrow> csv_rows \<Rightarrow> csv_rows" where
  "mapped_rows canonical_header f =
     (case f of
        [] \<Rightarrow> []
      | src_header # data \<Rightarrow>
          map (\<lambda>row. row_to_dst row (build_index_map src_header canonical_header)) data)"

definition all_mapped_rows :: "row \<Rightarrow> csv_rows list \<Rightarrow> csv_rows" where
  "all_mapped_rows canonical_header fs = concat (map (mapped_rows canonical_header) fs)"

text \<open>
  \<open>advances key st mapped st'\<close>: the state \<open>st'\<close> is \<open>st\<close> after the mapped rows \<open>mapped\<close>
  have been read, deduplicated by \<open>key\<close> and written.
\<close>

definition advances ::
  "(row \<Rightarrow> string list + 'd) \<Rightarrow> 'd run_state \<Rightarrow> csv_rows \<Rightarrow> 'd run_state \<Rightarrow> bool" where
  "advances key st mapped st' =
     (rows_in st' = rows_in st + length mapped \<and>
      out_f st' = out_f st @ keep_first key (seen_of st) mapped \<and>
      seen_of st' = seen_of st \<union> key ` set mapped \<and>
      rows_out st' = rows_out st + length (keep_first key (seen_of st) mapped) \<and>
      duplicates_skipped st' + length (keep_first key (seen_of st) mapped) =
        duplicates_skipped st + length mapped)"

section \<open>Notions used to read back a written file\<close>



definition line_ends :: "char \<Rightarrow> string \<Rightarrow> bool" where
  "line_ends c cs =
     (cs = [] \<or> (is_newline c \<and> \<not> (c = CHR 0x0D \<and> take 1 cs = [CHR 0x0A])))"

fun feed :: "dialect \<Rightarrow> parser \<Rightarrow> string \<Rightarrow> error + csv_rows" where
  "feed d p [] = reader_rows d p []"
| "feed d p (c # cs) =
     (case parse_process_char d p (Some c) of
        Inl err \<Rightarrow> Inl err
      | Inr p' \<Rightarrow>
          if line_ends c cs
          then (case parse_process_char d p' None of
                  Inl err \<Rightarrow> Inl err
                | Inr (st, cur, cells) \<Rightarrow>
                    if st = START_RECORD
                    then (case feed d (START_RECORD, [], []) cs of
                            Inl err \<Rightarrow> Inl err
                          | Inr rows \<Rightarrow> Inr (cells # rows))
                    else feed d (st, cur, cells) cs)
          else feed d p' cs)"


declare bitlen.simps [simp del] str_nat.simps [simp del] feed.simps(2) [simp del]

section \<open>Properties of the header reconciliation\<close>

lemma idx_by_name_snoc:
  "idx_by_name (xs @ [x]) = (idx_by_name xs)(x \<mapsto> length xs)"
  by (simp add: idx_by_name_def enumerate_append_eq)

lemma idx_by_name_Nil: "idx_by_name [] = Map.empty"
  by (simp add: idx_by_name_def)

lemma idx_by_name_None: "n \<notin> set xs \<Longrightarrow> idx_by_name xs n = None"
  by (induction xs rule: rev_induct) (simp_all add: idx_by_name_Nil idx_by_name_snoc)

lemma idx_by_name_last:
  "n \<in> set xs \<Longrightarrow>
   \<exists>i. idx_by_name xs n = Some i \<and> i < length xs \<and> xs ! i = n \<and>
       (\<forall>j. j < length xs \<and> xs ! j = n \<longrightarrow> j \<le> i)"
proof (induction xs rule: rev_induct)
  case Nil
  then show ?case by simp
next
  case (snoc x xs)
  show ?case
  proof (cases "x = n")
    case True
    then show ?thesis
      by (auto simp: idx_by_name_snoc nth_append)
  next
    case False
    with snoc.prems have "n \<in> set xs" by simp
    from snoc.IH [OF this] obtain i where i:
      "idx_by_name xs n = Some i" "i < length xs" "xs ! i = n"
      "\<forall>j. j < length xs \<and> xs ! j = n \<longrightarrow> j \<le> i"
      by blast
    have "\<forall>j. j < length (xs @ [x]) \<and> (xs @ [x]) ! j = n \<longrightarrow> j \<le> i"
    proof (intro allI impI)
      fix j assume j: "j < length (xs @ [x]) \<and> (xs @ [x]) ! j = n"
      show "j \<le> i"
      proof (cases "j < length xs")
        case True
        with j i(4) show ?thesis by (simp add: nth_append)
      next
        case False
        with j have "j = length xs" by simp
        with j \<open>x \<noteq> n\<close> show ?thesis by simp
      qed
    qed
    with i False show ?thesis
      by (auto simp: idx_by_name_snoc nth_append)
  qed
qed

lemma length_row_to_dst: "length (row_to_dst row m) = length m"
  by (induction m) simp_all

lemma row_to_dst_map:
  "row_to_dst row m =
   map (\<lambda>idx. case idx of None \<Rightarrow> '''' | Some i \<Rightarrow> if i < length row then row ! i else '''') m"
  by (induction m) simp_all

text \<open>
  C7. \<open>row_to_dst\<close> is a total function with no failing branch: for every row and every
  mapping the result has one cell per mapping entry, and cell \<open>j\<close> is \<open>row[index]\<close> when
  entry \<open>j\<close> is a defined index below the length of the row, and the empty string when the
  entry is undefined or the index is out of bounds.
\<close>

theorem row_to_dst_total_cells:
  "length (row_to_dst row m) = length m \<and>
   (\<forall>j. j < length m \<longrightarrow>
      row_to_dst row m ! j =
        (case m ! j of
           None \<Rightarrow> ''''
         | Some i \<Rightarrow> if i < length row then row ! i else ''''))"
  by (simp add: row_to_dst_map)

theorem row_to_dst_total_cells_witness:
  "length (row_to_dst [''a'', ''b''] [Some 1, None, Some 5]) = 3 \<and>
   row_to_dst [''a'', ''b''] [Some 1, None, Some 5] ! 0 = ''b'' \<and>
   row_to_dst [''a'', ''b''] [Some 1, None, Some 5] ! 1 = '''' \<and>
   row_to_dst [''a'', ''b''] [Some 1, None, Some 5] ! 2 = ''''"
  using row_to_dst_total_cells [of "[''a'', ''b'']" "[Some 1, None, Some 5]"]
  by simp

text \<open>
  C3, as stated, fails: with the source header \<open>a,a\<close> the canonical column \<open>a\<close> is mapped
  to index 1, the last occurrence, not to index 0.
\<close>

theorem build_index_map_first_occurrence_counterexample:
  "build_index_map [''a'', ''a''] [''a''] = [Some 1] \<and>
   build_index_map [''a'', ''a''] [''a''] \<noteq> [Some 0]"
  by (simp add: build_index_map_def idx_by_name_def)

text \<open>
  C3, amended. \<open>build_index_map\<close> raises no error, and when a canonical column name occurs
  in the source header (once or several times) its entry is the index of the last
  occurrence of that name in the source header; a name that does not occur is mapped to
  \<open>None\<close>.
\<close>

theorem build_index_map_last_occurrence:
  "length (build_index_map src dst) = length dst \<and>
   (\<forall>j. j < length dst \<longrightarrow>
      (if dst ! j \<in> set src
       then \<exists>i. build_index_map src dst ! j = Some i \<and> i < length src \<and> src ! i = dst ! j \<and>
                (\<forall>k. k < length src \<and> src ! k = dst ! j \<longrightarrow> k \<le> i)
       else build_index_map src dst ! j = None))"
  using idx_by_name_last idx_by_name_None
  by (simp add: build_index_map_def)

theorem build_index_map_last_occurrence_witness:
  "length (build_index_map [''a'', ''b'', ''a''] [''a'', ''c'']) = 2 \<and>
   build_index_map [''a'', ''b'', ''a''] [''a'', ''c''] ! 0 = Some 2 \<and>
   build_index_map [''a'', ''b'', ''a''] [''a'', ''c''] ! 1 = None"
  using build_index_map_last_occurrence [of "[''a'', ''b'', ''a'']" "[''a'', ''c'']"]
  by (simp add: build_index_map_def idx_by_name_def)

section \<open>The column stripper\<close>






section \<open>Fatal input conditions\<close>

lemma list_csvs_Nil: "(\<forall>e \<in> set d. \<not> is_csv_file e) \<Longrightarrow> list_csvs d = []"
  by (simp add: list_csvs_def)

lemma first_header_Nil: "(\<forall>f \<in> set fs. read_header f = []) \<Longrightarrow> first_header fs = []"
  by (induction fs) simp_all

text \<open>
  C6. When no entry of the input directory is a file with a CSV extension the merge fails
  with \<open>NoInputFiles\<close>; when there are such files and none of them has a header row
  (the file has no row, or its first row is empty) it fails with \<open>EmptyInputSet\<close>, a
  different condition. In both cases the output file is what it was before the call: no
  output file is created.
\<close>

theorem combine_csvs_fatal_before_output:
  "((\<forall>e \<in> set input_dir. \<not> is_csv_file e) \<longrightarrow>
      combine_csvs sha256 input_dir output_csv = (Inl NoInputFiles, output_csv)) \<and>
   ((\<exists>e \<in> set input_dir. is_csv_file e) \<and>
    (\<forall>e \<in> set input_dir. is_csv_file e \<longrightarrow> read_header (entry_rows e) = []) \<longrightarrow>
      combine_csvs sha256 input_dir output_csv = (Inl EmptyInputSet, output_csv)) \<and>
   NoInputFiles \<noteq> EmptyInputSet"
proof (intro conjI impI)
  assume "\<forall>e \<in> set input_dir. \<not> is_csv_file e"
  then show "combine_csvs sha256 input_dir output_csv = (Inl NoInputFiles, output_csv)"
    by (simp add: combine_csvs_def list_csvs_Nil)
next
  assume a: "(\<exists>e \<in> set input_dir. is_csv_file e) \<and>
    (\<forall>e \<in> set input_dir. is_csv_file e \<longrightarrow> read_header (entry_rows e) = [])"
  then have ne: "list_csvs input_dir \<noteq> []"
    by (auto simp: list_csvs_def filter_empty_conv)
  from a have "first_header (map entry_rows (list_csvs input_dir)) = []"
    by (intro first_header_Nil) (auto simp: list_csvs_def)
  with ne show "combine_csvs sha256 input_dir output_csv = (Inl EmptyInputSet, output_csv)"
    by (simp add: combine_csvs_def)
qed simp

theorem combine_csvs_fatal_before_output_witness:
  "combine_csvs (\<lambda>b. b)
     [\<lparr>entry_name = ''notes.txt'', entry_isfile = True, entry_rows = [[''a'']]\<rparr>,
      \<lparr>entry_name = ''sub.csv'', entry_isfile = False, entry_rows = []\<rparr>] None
     = (Inl NoInputFiles, None) \<and>
   combine_csvs (\<lambda>b. b)
     [\<lparr>entry_name = ''A.CSV'', entry_isfile = True, entry_rows = []\<rparr>,
      \<lparr>entry_name = ''b.csv'', entry_isfile = True, entry_rows = [[], [''1'']]\<rparr>] None
     = (Inl EmptyInputSet, None)"
  using combine_csvs_fatal_before_output
     [of "[\<lparr>entry_name = ''notes.txt'', entry_isfile = True, entry_rows = [[''a'']]\<rparr>,
           \<lparr>entry_name = ''sub.csv'', entry_isfile = False, entry_rows = []\<rparr>]" "\<lambda>b. b" None]
    combine_csvs_fatal_before_output
     [of "[\<lparr>entry_name = ''A.CSV'', entry_isfile = True, entry_rows = []\<rparr>,
           \<lparr>entry_name = ''b.csv'', entry_isfile = True, entry_rows = [[], [''1'']]\<rparr>]" "\<lambda>b. b" None]
  by (simp add: is_csv_file_def endswith_def lower_def lower_char_def read_header_def)

section \<open>The merge loop\<close>

lemma keep_first_append:
  "keep_first key seen (xs @ ys) =
   keep_first key seen xs @ keep_first key (seen \<union> key ` set xs) ys"
  by (induction xs arbitrary: seen) (auto simp: insert_absorb)

lemma length_keep_first: "length (keep_first key seen xs) \<le> length xs"
  by (induction xs arbitrary: seen) (auto intro: le_SucI)

lemma subseq_keep_first: "subseq (keep_first key seen xs) xs"
  by (induction xs arbitrary: seen) auto




lemma advances_Nil: "advances key st [] st"
  by (simp add: advances_def)

lemma advances_append:
  "advances key st xs st' \<Longrightarrow> advances key st' ys st'' \<Longrightarrow> advances key st (xs @ ys) st''"
  by (auto simp: advances_def keep_first_append Un_assoc)

lemma key_tuple_in_range:
  "\<forall>i. Some i \<in> set key_idx \<longrightarrow> i < length out_row \<Longrightarrow>
   key_tuple out_row key_idx = Inr (key_cells out_row key_idx)"
  by (induction out_row key_idx rule: key_tuple.induct) simp_all

lemma process_row_advances:
  assumes "\<forall>i. Some i \<in> set key_idx \<longrightarrow> i < length idx_map"
  shows "\<exists>st'. process_row sha256 use_key key_idx idx_map st row = Inr st' \<and>
           advances (dedup_key sha256 use_key key_idx) st [row_to_dst row idx_map] st' \<and>
           files st' = files st \<and>
           (use_key \<longrightarrow> seen_full_rows st' = seen_full_rows st) \<and>
           (\<not> use_key \<longrightarrow> seen_keys st' = seen_keys st)"
proof -
  have "key_tuple (row_to_dst row idx_map) key_idx = Inr (key_cells (row_to_dst row idx_map) key_idx)"
    using assms by (intro key_tuple_in_range) (simp add: length_row_to_dst)
  then show ?thesis
    by (auto simp: process_row_def key_check_def hash_check_def write_row_def advances_def
        dedup_key_def seen_of_def Let_def)
qed

lemma process_rows_advances:
  assumes "\<forall>i. Some i \<in> set key_idx \<longrightarrow> i < length idx_map"
  shows "\<exists>st'. process_rows sha256 use_key key_idx idx_map st data = Inr st' \<and>
           advances (dedup_key sha256 use_key key_idx) st
             (map (\<lambda>row. row_to_dst row idx_map) data) st' \<and>
           files st' = files st \<and>
           (use_key \<longrightarrow> seen_full_rows st' = seen_full_rows st) \<and>
           (\<not> use_key \<longrightarrow> seen_keys st' = seen_keys st)"
proof (induction data arbitrary: st)
  case Nil
  then show ?case by (simp add: advances_Nil)
next
  case (Cons row data)
  from process_row_advances [OF assms, of sha256 use_key st row] obtain st1 where 1:
    "process_row sha256 use_key key_idx idx_map st row = Inr st1"
    "advances (dedup_key sha256 use_key key_idx) st [row_to_dst row idx_map] st1"
    "files st1 = files st"
    "use_key \<longrightarrow> seen_full_rows st1 = seen_full_rows st"
    "\<not> use_key \<longrightarrow> seen_keys st1 = seen_keys st"
    by blast
  from Cons.IH [of st1] obtain st2 where 2:
    "process_rows sha256 use_key key_idx idx_map st1 data = Inr st2"
    "advances (dedup_key sha256 use_key key_idx) st1
       (map (\<lambda>row. row_to_dst row idx_map) data) st2"
    "files st2 = files st1"
    "use_key \<longrightarrow> seen_full_rows st2 = seen_full_rows st1"
    "\<not> use_key \<longrightarrow> seen_keys st2 = seen_keys st1"
    by blast
  from advances_append [OF 1(2) 2(2)]
  have "advances (dedup_key sha256 use_key key_idx) st
          (map (\<lambda>row. row_to_dst row idx_map) (row # data)) st2"
    by simp
  with 1 2 show ?case by simp
qed

lemma advances_files:
  "advances key st mapped (st'\<lparr>files := n\<rparr>) = advances key st mapped st'"
  "advances key (st\<lparr>files := n\<rparr>) mapped st' = advances key st mapped st'"
  by (simp_all add: advances_def seen_of_def)

lemma process_file_advances:
  assumes "\<forall>i. Some i \<in> set key_idx \<longrightarrow> i < length canonical_header"
  shows "\<exists>st'. process_file sha256 use_key key_idx canonical_header st f = Inr st' \<and>
           advances (dedup_key sha256 use_key key_idx) st (mapped_rows canonical_header f) st' \<and>
           files st' = files st + 1 \<and>
           (use_key \<longrightarrow> seen_full_rows st' = seen_full_rows st) \<and>
           (\<not> use_key \<longrightarrow> seen_keys st' = seen_keys st)"
proof (cases f)
  case Nil
  then show ?thesis
    by (simp add: process_file_def mapped_rows_def advances_def seen_of_def)
next
  case (Cons src_header data)
  have "\<forall>i. Some i \<in> set key_idx \<longrightarrow> i < length (build_index_map src_header canonical_header)"
    using assms by (simp add: build_index_map_def)
  from process_rows_advances [OF this, of sha256 use_key "st\<lparr>files := files st + 1\<rparr>" data]
  show ?thesis
    using Cons by (auto simp: process_file_def mapped_rows_def advances_files)
qed

lemma process_files_advances:
  assumes "\<forall>i. Some i \<in> set key_idx \<longrightarrow> i < length canonical_header"
  shows "\<exists>st'. process_files sha256 use_key key_idx canonical_header st fs = Inr st' \<and>
           advances (dedup_key sha256 use_key key_idx) st (all_mapped_rows canonical_header fs) st' \<and>
           files st' = files st + length fs \<and>
           (use_key \<longrightarrow> seen_full_rows st' = seen_full_rows st) \<and>
           (\<not> use_key \<longrightarrow> seen_keys st' = seen_keys st)"
proof (induction fs arbitrary: st)
  case Nil
  then show ?case by (simp add: advances_Nil all_mapped_rows_def)
next
  case (Cons f fs)
  from process_file_advances [OF assms, of sha256 use_key st f] obtain st1 where 1:
    "process_file sha256 use_key key_idx canonical_header st f = Inr st1"
    "advances (dedup_key sha256 use_key key_idx) st (mapped_rows canonical_header f) st1"
    "files st1 = files st + 1"
    "use_key \<longrightarrow> seen_full_rows st1 = seen_full_rows st"
    "\<not> use_key \<longrightarrow> seen_keys st1 = seen_keys st"
    by blast
  from Cons.IH [of st1] obtain st2 where 2:
    "process_files sha256 use_key key_idx canonical_header st1 fs = Inr st2"
    "advances (dedup_key sha256 use_key key_idx) st1 (all_mapped_rows canonical_header fs) st2"
    "files st2 = files st1 + length fs"
    "use_key \<longrightarrow> seen_full_rows st2 = seen_full_rows st1"
    "\<not> use_key \<longrightarrow> seen_keys st2 = seen_keys st1"
    by blast
  from advances_append [OF 1(2) 2(2)]
  have "advances (dedup_key sha256 use_key key_idx) st
          (all_mapped_rows canonical_header (f # fs)) st2"
    by (simp add: all_mapped_rows_def)
  with 1 2 show ?case by simp
qed

lemma idx_by_name_Some: "idx_by_name xs n = Some i \<Longrightarrow> i < length xs \<and> xs ! i = n"
proof (cases "n \<in> set xs")
  case True
  assume "idx_by_name xs n = Some i"
  with idx_by_name_last [OF True] show ?thesis by auto
next
  case False
  assume "idx_by_name xs n = Some i"
  with idx_by_name_None [OF False] show ?thesis by simp
qed

lemma key_idx_of_in_range:
  "\<forall>i. Some i \<in> set (key_idx_of canonical_header) \<longrightarrow> i < length canonical_header"
  by (auto simp: key_idx_of_def dest: idx_by_name_Some [OF sym])

text \<open>A run that finds a header returns: the counters and the output file in closed form.\<close>

lemma combine_csvs_success:
  assumes "list_csvs input_dir \<noteq> []"
    and "first_header (map entry_rows (list_csvs input_dir)) = hdr" and "hdr \<noteq> []"
  shows "combine_csvs sha256 input_dir output_csv =
    (Inr \<lparr>files = length (list_csvs input_dir),
          rows_in = length (all_mapped_rows hdr (map entry_rows (list_csvs input_dir))),
          duplicates_skipped =
            length (all_mapped_rows hdr (map entry_rows (list_csvs input_dir))) -
            length (keep_first (dedup_key sha256 (use_key_of hdr) (key_idx_of hdr)) {}
                      (all_mapped_rows hdr (map entry_rows (list_csvs input_dir)))),
          rows_out =
            length (keep_first (dedup_key sha256 (use_key_of hdr) (key_idx_of hdr)) {}
                      (all_mapped_rows hdr (map entry_rows (list_csvs input_dir))))\<rparr>,
     Some (hdr # keep_first (dedup_key sha256 (use_key_of hdr) (key_idx_of hdr)) {}
                   (all_mapped_rows hdr (map entry_rows (list_csvs input_dir)))))"
proof -
  let ?fs = "map entry_rows (list_csvs input_dir)"
  let ?key = "dedup_key sha256 (use_key_of hdr) (key_idx_of hdr)"
  let ?st0 = "initial_state hdr :: 'a run_state"
  have "\<exists>st'. process_files sha256 (use_key_of hdr) (key_idx_of hdr) hdr ?st0 ?fs = Inr st' \<and>
           advances ?key ?st0 (all_mapped_rows hdr ?fs) st' \<and>
           files st' = files ?st0 + length ?fs \<and>
           (use_key_of hdr \<longrightarrow> seen_full_rows st' = seen_full_rows ?st0) \<and>
           (\<not> use_key_of hdr \<longrightarrow> seen_keys st' = seen_keys ?st0)"
    by (rule process_files_advances [OF key_idx_of_in_range])
  then obtain st where st:
    "process_files sha256 (use_key_of hdr) (key_idx_of hdr) hdr ?st0 ?fs = Inr st"
    "advances ?key ?st0 (all_mapped_rows hdr ?fs) st"
    "files st = files ?st0 + length ?fs"
    by blast
  have s0: "seen_of ?st0 = {}" "rows_in ?st0 = 0" "rows_out ?st0 = 0"
    "duplicates_skipped ?st0 = 0" "files ?st0 = 0" "out_f ?st0 = [hdr]"
    by (simp_all add: initial_state_def seen_of_def)
  from st(2) s0 have
    "rows_in st = length (all_mapped_rows hdr ?fs)"
    "rows_out st = length (keep_first ?key {} (all_mapped_rows hdr ?fs))"
    "duplicates_skipped st = length (all_mapped_rows hdr ?fs) -
        length (keep_first ?key {} (all_mapped_rows hdr ?fs))"
    "out_f st = hdr # keep_first ?key {} (all_mapped_rows hdr ?fs)"
    by (auto simp: advances_def)
  with st(1,3) s0(5) assms show ?thesis
    by (simp add: combine_csvs_def totals.truncate_def Let_def)
qed

section \<open>Concrete runs\<close>

lemmas norm_defs =
  normalize_for_key_def strip_def py_isspace_def isdigit_def py_isdigit_char_def
  ascii_digit_def py_float_def decimal_value_def binary64_of_ratio_def bitlen.simps
  ratio_ge_pow2_def scale_round_def round_half_even_def str_nat.simps lower_def
  lower_char_def Let_def char_of_eq_iff

lemmas run_defs =
  combine_csvs_def list_csvs_def is_csv_file_def endswith_def lower_def lower_char_def
  read_header_def use_key_of_def key_idx_of_def KEY_COLUMNS_def idx_by_name_def
  initial_state_def process_file_def process_row_def key_check_def hash_check_def
  write_row_def build_index_map_def hash_row_def encode_utf8_def utf8_char_def
  totals.truncate_def Let_def char_of_eq_iff

lemma normalize_for_key_values:
  "normalize_for_key '' 7.0 '' = ''7''"
  "normalize_for_key ''7'' = ''7''"
  "normalize_for_key ''8'' = ''8''"
  "normalize_for_key ''A'' = ''a''"
  "normalize_for_key ''a'' = ''a''"
  by (simp_all add: norm_defs)

lemma key_mode_run:
  "combine_csvs (\<lambda>b. b)
     [\<lparr>entry_name = ''x.csv'', entry_isfile = True,
       entry_rows = [[''game_id'', ''play_id'', ''v''], ['' 7.0 '', ''A'', ''x''],
                     [''7'', ''a'', ''y''], [''8'', ''a'']]\<rparr>] None =
     (Inr \<lparr>files = 1, rows_in = 3, duplicates_skipped = 1, rows_out = 2\<rparr>,
      Some [[''game_id'', ''play_id'', ''v''], ['' 7.0 '', ''A'', ''x''], [''8'', ''a'', '''']])"
  by (simp add: run_defs normalize_for_key_values)

section \<open>Row accounting\<close>

lemma combine_csvs_Inr:
  "combine_csvs sha256 input_dir output_csv = (Inr t, out') \<Longrightarrow>
   list_csvs input_dir \<noteq> [] \<and> first_header (map entry_rows (list_csvs input_dir)) \<noteq> []"
  by (auto simp: combine_csvs_def Let_def split: if_splits)

lemma length_all_mapped_rows:
  "length (all_mapped_rows hdr fs) = (\<Sum>f\<leftarrow>fs. length f - 1)"
  by (induction fs) (simp_all add: all_mapped_rows_def mapped_rows_def split: list.splits)

text \<open>
  C1. For every run of \<open>combine_csvs\<close> that returns, the statistics satisfy
  \<open>rows_in = rows_out + duplicates_skipped\<close>; \<open>rows_in\<close> is the number of rows of the CSV
  files after their headers, and \<open>rows_out\<close> the number of rows of the output file after
  its header.
\<close>

theorem combine_csvs_row_accounting:
  assumes "combine_csvs sha256 input_dir output_csv = (Inr t, out')"
  shows "rows_in t = rows_out t + duplicates_skipped t \<and>
         rows_in t = (\<Sum>f\<leftarrow>map entry_rows (list_csvs input_dir). length f - 1) \<and>
         (\<exists>hdr rows. out' = Some (hdr # rows) \<and> length rows = rows_out t)"
proof -
  from combine_csvs_Inr [OF assms]
  have ne: "list_csvs input_dir \<noteq> []"
    and hdr: "first_header (map entry_rows (list_csvs input_dir)) \<noteq> []"
    by simp_all
  define fs where "fs = map entry_rows (list_csvs input_dir)"
  define h where "h = first_header fs"
  define mapped where "mapped = all_mapped_rows h fs"
  define kept where
    "kept = keep_first (dedup_key sha256 (use_key_of h) (key_idx_of h)) {} mapped"
  from combine_csvs_success [OF ne refl hdr, of sha256 output_csv] assms
  have t: "t = \<lparr>files = length (list_csvs input_dir), rows_in = length mapped,
                duplicates_skipped = length mapped - length kept, rows_out = length kept\<rparr>"
    and out: "out' = Some (h # kept)"
    by (simp_all add: fs_def h_def mapped_def kept_def)
  have le: "length kept \<le> length mapped"
    by (simp add: kept_def length_keep_first)
  have "rows_in t = rows_out t + duplicates_skipped t"
    using t le by simp
  moreover have "rows_in t = (\<Sum>f\<leftarrow>map entry_rows (list_csvs input_dir). length f - 1)"
    using t by (simp add: mapped_def length_all_mapped_rows fs_def)
  moreover have "\<exists>hdr rows. out' = Some (hdr # rows) \<and> length rows = rows_out t"
    using t out by simp
  ultimately show ?thesis by blast
qed

theorem combine_csvs_row_accounting_witness:
  "combine_csvs (\<lambda>b. b)
     [\<lparr>entry_name = ''x.csv'', entry_isfile = True,
       entry_rows = [[''game_id'', ''play_id'', ''v''], ['' 7.0 '', ''A'', ''x''],
                     [''7'', ''a'', ''y''], [''8'', ''a'']]\<rparr>] None =
     (Inr \<lparr>files = 1, rows_in = 3, duplicates_skipped = 1, rows_out = 2\<rparr>,
      Some [[''game_id'', ''play_id'', ''v''], ['' 7.0 '', ''A'', ''x''], [''8'', ''a'', '''']]) \<and>
   rows_in \<lparr>files = 1, rows_in = 3, duplicates_skipped = 1, rows_out = 2\<rparr> =
   rows_out \<lparr>files = 1, rows_in = 3, duplicates_skipped = 1, rows_out = 2\<rparr> +
   duplicates_skipped \<lparr>files = 1, rows_in = 3, duplicates_skipped = 1, rows_out = 2\<rparr>"
  using key_mode_run combine_csvs_row_accounting [OF key_mode_run]
  by blast

section \<open>The two-file scenario\<close>

text \<open>
  C2. Merging \<open>a.csv\<close> (header \<open>id,val\<close>; rows \<open>(1,x)\<close>, \<open>(2,y)\<close>) and \<open>b.csv\<close> (header
  \<open>val,id\<close>; rows \<open>(y,2)\<close>, \<open>(z,3)\<close>) writes the header \<open>id,val\<close> and exactly the three rows
  \<open>(1,x)\<close>, \<open>(2,y)\<close>, \<open>(3,z)\<close>; one duplicate is skipped. The header has no key column, so
  the rows are compared by digest: the digest function is assumed to give the three
  distinct rows three distinct digests, as SHA-256 does.
\<close>

theorem combine_csvs_two_files:
  assumes "distinct [sha256 (encode_utf8 (join [CHR 0x00] [''1'', ''x''])),
                     sha256 (encode_utf8 (join [CHR 0x00] [''2'', ''y''])),
                     sha256 (encode_utf8 (join [CHR 0x00] [''3'', ''z'']))]"
  shows "combine_csvs sha256
     [\<lparr>entry_name = ''a.csv'', entry_isfile = True,
       entry_rows = [[''id'', ''val''], [''1'', ''x''], [''2'', ''y'']]\<rparr>,
      \<lparr>entry_name = ''b.csv'', entry_isfile = True,
       entry_rows = [[''val'', ''id''], [''y'', ''2''], [''z'', ''3'']]\<rparr>] None =
     (Inr \<lparr>files = 2, rows_in = 4, duplicates_skipped = 1, rows_out = 3\<rparr>,
      Some [[''id'', ''val''], [''1'', ''x''], [''2'', ''y''], [''3'', ''z'']])"
  using assms by (auto simp: run_defs)

theorem combine_csvs_two_files_witness:
  "distinct [(\<lambda>b. b) (encode_utf8 (join [CHR 0x00] [''1'', ''x''])),
             (\<lambda>b. b) (encode_utf8 (join [CHR 0x00] [''2'', ''y''])),
             (\<lambda>b. b) (encode_utf8 (join [CHR 0x00] [''3'', ''z'']))] \<and>
   combine_csvs (\<lambda>b. b)
     [\<lparr>entry_name = ''a.csv'', entry_isfile = True,
       entry_rows = [[''id'', ''val''], [''1'', ''x''], [''2'', ''y'']]\<rparr>,
      \<lparr>entry_name = ''b.csv'', entry_isfile = True,
       entry_rows = [[''val'', ''id''], [''y'', ''2''], [''z'', ''3'']]\<rparr>] None =
     (Inr \<lparr>files = 2, rows_in = 4, duplicates_skipped = 1, rows_out = 3\<rparr>,
      Some [[''id'', ''val''], [''1'', ''x''], [''2'', ''y''], [''3'', ''z'']])"
proof -
  have d: "distinct [(\<lambda>b. b) (encode_utf8 (join [CHR 0x00] [''1'', ''x''])),
             (\<lambda>b. b) (encode_utf8 (join [CHR 0x00] [''2'', ''y''])),
             (\<lambda>b. b) (encode_utf8 (join [CHR 0x00] [''3'', ''z'']))]"
    by (simp add: encode_utf8_def utf8_char_def)
  from d combine_csvs_two_files [of "\<lambda>b. b", OF d] show ?thesis
    by (rule conjI)
qed

section \<open>Written rows are the mapped source rows\<close>

lemma set_all_mapped_rows:
  "w \<in> set (all_mapped_rows hdr fs) \<Longrightarrow>
   \<exists>f \<in> set fs. \<exists>src_header data. f = src_header # data \<and>
     (\<exists>row \<in> set data. w = row_to_dst row (build_index_map src_header hdr))"
  by (auto simp: all_mapped_rows_def mapped_rows_def split: list.splits)

lemma set_keep_first: "set (keep_first key seen xs) \<subseteq> set xs"
  by (induction xs arbitrary: seen) auto

lemma row_to_dst_build_index_map_nth:
  "j < length hdr \<Longrightarrow>
   row_to_dst row (build_index_map src_header hdr) ! j =
     (case idx_by_name src_header (hdr ! j) of
        None \<Rightarrow> ''''
      | Some i \<Rightarrow> if i < length row then row ! i else '''')"
  by (simp add: row_to_dst_map build_index_map_def)

text \<open>
  C5. Key normalization is used for duplicate detection only. In every run that returns,
  the rows of the output file after the header are exactly the mapped source rows whose
  key was not seen before, in the order read. Each of them is \<open>row_to_dst\<close> of a data row
  of an input file under the index map of that file: its cell for a canonical column is
  the cell of the source row at the mapped index, copied as it is, or the empty string
  when the column is missing or the row too short; no cell is a normalized form.
\<close>

theorem combine_csvs_writes_mapped_rows:
  assumes "combine_csvs sha256 input_dir output_csv = (Inr t, out')"
  shows "\<exists>hdr rows.
     out' = Some (hdr # rows) \<and>
     hdr = first_header (map entry_rows (list_csvs input_dir)) \<and>
     rows = keep_first (dedup_key sha256 (use_key_of hdr) (key_idx_of hdr)) {}
              (all_mapped_rows hdr (map entry_rows (list_csvs input_dir))) \<and>
     subseq rows (all_mapped_rows hdr (map entry_rows (list_csvs input_dir))) \<and>
     (\<forall>w \<in> set rows.
        \<exists>e \<in> set (list_csvs input_dir). \<exists>src_header data.
          entry_rows e = src_header # data \<and>
          (\<exists>row \<in> set data.
             w = row_to_dst row (build_index_map src_header hdr) \<and>
             length w = length hdr \<and>
             (\<forall>j. j < length hdr \<longrightarrow>
                w ! j = (case idx_by_name src_header (hdr ! j) of
                           None \<Rightarrow> ''''
                         | Some i \<Rightarrow> if i < length row then row ! i else ''''))))"
proof -
  from combine_csvs_Inr [OF assms]
  have ne: "list_csvs input_dir \<noteq> []"
    and hdr: "first_header (map entry_rows (list_csvs input_dir)) \<noteq> []"
    by simp_all
  define fs where "fs = map entry_rows (list_csvs input_dir)"
  define h where "h = first_header fs"
  define mapped where "mapped = all_mapped_rows h fs"
  define kept where
    "kept = keep_first (dedup_key sha256 (use_key_of h) (key_idx_of h)) {} mapped"
  from combine_csvs_success [OF ne refl hdr, of sha256 output_csv] assms
  have out: "out' = Some (h # kept)"
    by (simp add: fs_def h_def mapped_def kept_def)
  have sub: "subseq kept mapped"
    by (simp add: kept_def subseq_keep_first)
  have cells: "\<exists>e \<in> set (list_csvs input_dir). \<exists>src_header data.
          entry_rows e = src_header # data \<and>
          (\<exists>row \<in> set data.
             w = row_to_dst row (build_index_map src_header h) \<and>
             length w = length h \<and>
             (\<forall>j. j < length h \<longrightarrow>
                w ! j = (case idx_by_name src_header (h ! j) of
                           None \<Rightarrow> ''''
                         | Some i \<Rightarrow> if i < length row then row ! i else '''')))"
    if "w \<in> set kept" for w
  proof -
    from that have "w \<in> set mapped"
      unfolding kept_def by (rule subsetD [OF set_keep_first])
    from set_all_mapped_rows [OF this [unfolded mapped_def]]
    obtain f src_header data row where f: "f \<in> set fs" "f = src_header # data"
      "row \<in> set data" "w = row_to_dst row (build_index_map src_header h)"
      by blast
    from f(1) obtain e where e: "e \<in> set (list_csvs input_dir)" "entry_rows e = f"
      by (auto simp: fs_def)
    have "length w = length h"
      by (simp add: f(4) length_row_to_dst build_index_map_def)
    moreover have "\<forall>j. j < length h \<longrightarrow>
        w ! j = (case idx_by_name src_header (h ! j) of
                   None \<Rightarrow> ''''
                 | Some i \<Rightarrow> if i < length row then row ! i else '''')"
      by (simp add: f(4) row_to_dst_build_index_map_nth)
    ultimately show ?thesis
      using e f by blast
  qed
  show ?thesis
  proof (intro exI conjI)
    show "out' = Some (h # kept)" by (rule out)
    show "h = first_header (map entry_rows (list_csvs input_dir))"
      by (simp add: h_def fs_def)
    show "kept = keep_first (dedup_key sha256 (use_key_of h) (key_idx_of h)) {}
              (all_mapped_rows h (map entry_rows (list_csvs input_dir)))"
      by (simp add: kept_def mapped_def fs_def)
    show "subseq kept (all_mapped_rows h (map entry_rows (list_csvs input_dir)))"
      using sub by (simp add: mapped_def fs_def)
    show "\<forall>w \<in> set kept.
        \<exists>e \<in> set (list_csvs input_dir). \<exists>src_header data.
          entry_rows e = src_header # data \<and>
          (\<exists>row \<in> set data.
             w = row_to_dst row (build_index_map src_header h) \<and>
             length w = length h \<and>
             (\<forall>j. j < length h \<longrightarrow>
                w ! j = (case idx_by_name src_header (h ! j) of
                           None \<Rightarrow> ''''
                         | Some i \<Rightarrow> if i < length row then row ! i else '''')))"
      using cells by blast
  qed
qed

text \<open>
  In the run below the key cells \<open>'' 7.0 ''\<close> and \<open>''A''\<close> of the first row are normalized
  to \<open>''7''\<close> and \<open>''a''\<close> for the comparison (the second row is their duplicate), and are
  written as they were read.
\<close>

theorem combine_csvs_writes_mapped_rows_witness:
  "combine_csvs (\<lambda>b. b)
     [\<lparr>entry_name = ''x.csv'', entry_isfile = True,
       entry_rows = [[''game_id'', ''play_id'', ''v''], ['' 7.0 '', ''A'', ''x''],
                     [''7'', ''a'', ''y''], [''8'', ''a'']]\<rparr>] None =
     (Inr \<lparr>files = 1, rows_in = 3, duplicates_skipped = 1, rows_out = 2\<rparr>,
      Some [[''game_id'', ''play_id'', ''v''], ['' 7.0 '', ''A'', ''x''], [''8'', ''a'', '''']]) \<and>
   (\<exists>hdr rows.
      Some [[''game_id'', ''play_id'', ''v''], ['' 7.0 '', ''A'', ''x''], [''8'', ''a'', '''']] =
        Some (hdr # rows) \<and>
      (\<forall>w \<in> set rows.
        \<exists>e \<in> set (list_csvs
                   [\<lparr>entry_name = ''x.csv'', entry_isfile = True,
                     entry_rows = [[''game_id'', ''play_id'', ''v''], ['' 7.0 '', ''A'', ''x''],
                                   [''7'', ''a'', ''y''], [''8'', ''a'']]\<rparr>]).
          \<exists>src_header data.
            entry_rows e = src_header # data \<and>
            (\<exists>row \<in> set data. w = row_to_dst row (build_index_map src_header hdr))))"
proof (rule conjI [OF key_mode_run])
  from combine_csvs_writes_mapped_rows [OF key_mode_run]
  obtain hdr rows where
    "Some [[''game_id'', ''play_id'', ''v''], ['' 7.0 '', ''A'', ''x''], [''8'', ''a'', '''']] =
       Some (hdr # rows)"
    "\<forall>w \<in> set rows.
        \<exists>e \<in> set (list_csvs
                   [\<lparr>entry_name = ''x.csv'', entry_isfile = True,
                     entry_rows = [[''game_id'', ''play_id'', ''v''], ['' 7.0 '', ''A'', ''x''],
                                   [''7'', ''a'', ''y''], [''8'', ''a'']]\<rparr>]).
          \<exists>src_header data.
            entry_rows e = src_header # data \<and>
            (\<exists>row \<in> set data.
               w = row_to_dst row (build_index_map src_header hdr) \<and>
               length w = length hdr \<and>
               (\<forall>j. j < length hdr \<longrightarrow>
                  w ! j = (case idx_by_name src_header (hdr ! j) of
                             None \<Rightarrow> ''''
                           | Some i \<Rightarrow> if i < length row then row ! i else '''')))"
    by blast
  then show "\<exists>hdr rows.
      Some [[''game_id'', ''play_id'', ''v''], ['' 7.0 '', ''A'', ''x''], [''8'', ''a'', '''']] =
        Some (hdr # rows) \<and>
      (\<forall>w \<in> set rows.
        \<exists>e \<in> set (list_csvs
                   [\<lparr>entry_name = ''x.csv'', entry_isfile = True,
                     entry_rows = [[''game_id'', ''play_id'', ''v''], ['' 7.0 '', ''A'', ''x''],
                                   [''7'', ''a'', ''y''], [''8'', ''a'']]\<rparr>]).
          \<exists>src_header data.
            entry_rows e = src_header # data \<and>
            (\<exists>row \<in> set data. w = row_to_dst row (build_index_map src_header hdr)))"
    by (intro exI conjI) blast+
qed

section \<open>The deduplication mode\<close>

lemma idx_by_name_eq_None: "idx_by_name xs n = None \<longleftrightarrow> n \<notin> set xs"
proof
  assume "idx_by_name xs n = None"
  with idx_by_name_last [of n xs] show "n \<notin> set xs" by auto
next
  assume "n \<notin> set xs"
  then show "idx_by_name xs n = None" by (rule idx_by_name_None)
qed

lemma use_key_of_iff:
  "use_key_of hdr \<longleftrightarrow> ''game_id'' \<in> set hdr \<and> ''play_id'' \<in> set hdr"
  unfolding use_key_of_def key_idx_of_def KEY_COLUMNS_def
  using idx_by_name_eq_None [of hdr "''game_id''"] idx_by_name_eq_None [of hdr "''play_id''"]
  by auto

lemma process_row_hash_mode:
  "process_row sha256 False key_idx idx_map st row =
   Inr (if sha256 (encode_utf8 (join [CHR 0x00] (row_to_dst row idx_map))) \<in> seen_full_rows st
        then st\<lparr>rows_in := rows_in st + 1, duplicates_skipped := duplicates_skipped st + 1\<rparr>
        else st\<lparr>rows_in := rows_in st + 1,
                seen_full_rows :=
                  insert (sha256 (encode_utf8 (join [CHR 0x00] (row_to_dst row idx_map))))
                    (seen_full_rows st),
                out_f := out_f st @ [row_to_dst row idx_map],
                rows_out := rows_out st + 1\<rparr>)"
  by (simp add: process_row_def hash_check_def write_row_def hash_row_def Let_def)

lemma keep_first_inj:
  "inj g \<Longrightarrow> keep_first (\<lambda>x. g (key x)) (g ` seen) xs = keep_first key seen xs"
proof (induction xs arbitrary: seen)
  case Nil
  then show ?case by simp
next
  case (Cons x xs)
  from Cons.prems have mem: "g (key x) \<in> g ` seen \<longleftrightarrow> key x \<in> seen"
    by (simp add: inj_image_mem_iff)
  have ins: "insert (g (key x)) (g ` seen) = g ` insert (key x) seen"
    by simp
  show ?case
    by (simp only: keep_first.simps mem ins Cons.IH [OF Cons.prems])
qed

lemma keep_first_Inl: "keep_first (\<lambda>x. Inl (key x)) {} xs = keep_first key {} xs"
  using keep_first_inj [of Inl key "{}" xs] by simp

lemma keep_first_Inr: "keep_first (\<lambda>x. Inr (key x)) {} xs = keep_first key {} xs"
  using keep_first_inj [of Inr key "{}" xs] by simp

lemma key_idx_of_use_key:
  assumes "use_key_of hdr"
  shows "\<exists>i j. i < length hdr \<and> j < length hdr \<and> hdr ! i = ''game_id'' \<and> hdr ! j = ''play_id'' \<and>
           key_idx_of hdr = [Some i, Some j]"
proof -
  from assms have "''game_id'' \<in> set hdr" "''play_id'' \<in> set hdr"
    by (simp_all add: use_key_of_iff)
  from idx_by_name_last [OF this(1)] idx_by_name_last [OF this(2)]
  show ?thesis
    by (auto simp: key_idx_of_def KEY_COLUMNS_def)
qed

text \<open>
  C9. The key columns are the two names \<open>game_id\<close> and \<open>play_id\<close>. In every run of
  \<open>combine_csvs\<close> that returns, the flag \<open>use_key\<close> (semantic-key mode) holds exactly when
  both names occur in the canonical header. When they do, the rows written are the
  mapped rows of all the files, a row being dropped exactly when the pair of its
  normalized cells in the two key columns is the pair of an earlier row. Otherwise the
  rows written are the mapped rows of all the files, a row being dropped exactly when the
  digest of its cells, joined with the NUL character and encoded, is the digest of an
  earlier row. The mode is fixed by the canonical header for the whole run: one key
  function serves the rows of all the files, and the loop leaves the set of the other
  mode empty.
\<close>

theorem dedup_mode_fixed_by_header:
  assumes "combine_csvs sha256 input_dir output_csv = (Inr t, out')"
  shows "KEY_COLUMNS = [''game_id'', ''play_id''] \<and>
    (\<exists>hdr rows.
       out' = Some (hdr # rows) \<and>
       hdr = first_header (map entry_rows (list_csvs input_dir)) \<and>
       (use_key_of hdr \<longleftrightarrow> ''game_id'' \<in> set hdr \<and> ''play_id'' \<in> set hdr) \<and>
       (if ''game_id'' \<in> set hdr \<and> ''play_id'' \<in> set hdr
        then \<exists>i j. i < length hdr \<and> j < length hdr \<and>
               hdr ! i = ''game_id'' \<and> hdr ! j = ''play_id'' \<and>
               key_idx_of hdr = [Some i, Some j] \<and>
               rows = keep_first (\<lambda>w. [normalize_for_key (w ! i), normalize_for_key (w ! j)]) {}
                        (all_mapped_rows hdr (map entry_rows (list_csvs input_dir)))
        else rows = keep_first (\<lambda>w. sha256 (encode_utf8 (join [CHR 0x00] w))) {}
                      (all_mapped_rows hdr (map entry_rows (list_csvs input_dir)))) \<and>
       (\<exists>st. process_files sha256 (use_key_of hdr) (key_idx_of hdr) hdr (initial_state hdr)
                (map entry_rows (list_csvs input_dir)) = Inr st \<and>
             out_f st = hdr # rows \<and>
             (if use_key_of hdr then seen_full_rows st = {} else seen_keys st = {})))"
proof -
  from combine_csvs_Inr [OF assms]
  have ne: "list_csvs input_dir \<noteq> []"
    and hdr: "first_header (map entry_rows (list_csvs input_dir)) \<noteq> []"
    by simp_all
  define fs where "fs = map entry_rows (list_csvs input_dir)"
  define h where "h = first_header fs"
  define mapped where "mapped = all_mapped_rows h fs"
  define kept where
    "kept = keep_first (dedup_key sha256 (use_key_of h) (key_idx_of h)) {} mapped"
  from combine_csvs_success [OF ne refl hdr, of sha256 output_csv] assms
  have out: "out' = Some (h # kept)"
    by (simp add: fs_def h_def mapped_def kept_def)
  have mode: "if ''game_id'' \<in> set h \<and> ''play_id'' \<in> set h
        then \<exists>i j. i < length h \<and> j < length h \<and>
               h ! i = ''game_id'' \<and> h ! j = ''play_id'' \<and>
               key_idx_of h = [Some i, Some j] \<and>
               kept = keep_first (\<lambda>w. [normalize_for_key (w ! i), normalize_for_key (w ! j)]) {}
                        mapped
        else kept = keep_first (\<lambda>w. sha256 (encode_utf8 (join [CHR 0x00] w))) {} mapped"
  proof (cases "use_key_of h")
    case True
    from key_idx_of_use_key [OF True] obtain i j where ij:
      "i < length h" "j < length h" "h ! i = ''game_id''" "h ! j = ''play_id''"
      "key_idx_of h = [Some i, Some j]"
      by blast
    have "dedup_key sha256 (use_key_of h) (key_idx_of h) =
          (\<lambda>w. Inl [normalize_for_key (w ! i), normalize_for_key (w ! j)])"
      using True by (simp add: dedup_key_def ij(5) fun_eq_iff)
    then have "kept = keep_first (\<lambda>w. [normalize_for_key (w ! i), normalize_for_key (w ! j)]) {}
                        mapped"
      by (simp only: kept_def keep_first_Inl)
    with ij True show ?thesis
      by (auto simp: use_key_of_iff)
  next
    case False
    have "dedup_key sha256 (use_key_of h) (key_idx_of h) =
          (\<lambda>w. Inr (sha256 (encode_utf8 (join [CHR 0x00] w))))"
      using False by (simp add: dedup_key_def hash_row_def fun_eq_iff)
    then have "kept = keep_first (\<lambda>w. sha256 (encode_utf8 (join [CHR 0x00] w))) {} mapped"
      by (simp only: kept_def keep_first_Inr)
    moreover from False have "\<not> (''game_id'' \<in> set h \<and> ''play_id'' \<in> set h)"
      by (simp add: use_key_of_iff)
    ultimately show ?thesis
      by (simp only: if_False)
  qed
  have "\<exists>st'. process_files sha256 (use_key_of h) (key_idx_of h) h (initial_state h) fs = Inr st' \<and>
           advances (dedup_key sha256 (use_key_of h) (key_idx_of h)) (initial_state h)
             (all_mapped_rows h fs) st' \<and>
           files st' = files (initial_state h :: 'a run_state) + length fs \<and>
           (use_key_of h \<longrightarrow> seen_full_rows st' = seen_full_rows (initial_state h :: 'a run_state)) \<and>
           (\<not> use_key_of h \<longrightarrow> seen_keys st' = seen_keys (initial_state h :: 'a run_state))"
    by (rule process_files_advances [OF key_idx_of_in_range])
  then obtain st where st:
    "process_files sha256 (use_key_of h) (key_idx_of h) h (initial_state h) fs = Inr st"
    "advances (dedup_key sha256 (use_key_of h) (key_idx_of h)) (initial_state h) mapped st"
    "use_key_of h \<longrightarrow> seen_full_rows st = seen_full_rows (initial_state h :: 'a run_state)"
    "\<not> use_key_of h \<longrightarrow> seen_keys st = seen_keys (initial_state h :: 'a run_state)"
    unfolding mapped_def by blast
  from st(2) have o: "out_f st = h # kept"
    by (simp add: advances_def initial_state_def seen_of_def kept_def)
  from st(3,4) have s: "if use_key_of h then seen_full_rows st = {} else seen_keys st = {}"
    by (simp add: initial_state_def)
  have loop: "\<exists>st. process_files sha256 (use_key_of h) (key_idx_of h) h (initial_state h) fs = Inr st \<and>
             out_f st = h # kept \<and>
             (if use_key_of h then seen_full_rows st = {} else seen_keys st = {})"
    using st(1) o s by blast
  have "\<exists>hdr rows.
       out' = Some (hdr # rows) \<and>
       hdr = first_header (map entry_rows (list_csvs input_dir)) \<and>
       (use_key_of hdr \<longleftrightarrow> ''game_id'' \<in> set hdr \<and> ''play_id'' \<in> set hdr) \<and>
       (if ''game_id'' \<in> set hdr \<and> ''play_id'' \<in> set hdr
        then \<exists>i j. i < length hdr \<and> j < length hdr \<and>
               hdr ! i = ''game_id'' \<and> hdr ! j = ''play_id'' \<and>
               key_idx_of hdr = [Some i, Some j] \<and>
               rows = keep_first (\<lambda>w. [normalize_for_key (w ! i), normalize_for_key (w ! j)]) {}
                        (all_mapped_rows hdr (map entry_rows (list_csvs input_dir)))
        else rows = keep_first (\<lambda>w. sha256 (encode_utf8 (join [CHR 0x00] w))) {}
                      (all_mapped_rows hdr (map entry_rows (list_csvs input_dir)))) \<and>
       (\<exists>st. process_files sha256 (use_key_of hdr) (key_idx_of hdr) hdr (initial_state hdr)
                (map entry_rows (list_csvs input_dir)) = Inr st \<and>
             out_f st = hdr # rows \<and>
             (if use_key_of hdr then seen_full_rows st = {} else seen_keys st = {}))"
  proof (rule exI [where x = h], rule exI [where x = kept], intro conjI)
    show "out' = Some (h # kept)" by (rule out)
    show "h = first_header (map entry_rows (list_csvs input_dir))"
      by (simp add: h_def fs_def)
    show "use_key_of h \<longleftrightarrow> ''game_id'' \<in> set h \<and> ''play_id'' \<in> set h"
      by (rule use_key_of_iff)
    show "if ''game_id'' \<in> set h \<and> ''play_id'' \<in> set h
        then \<exists>i j. i < length h \<and> j < length h \<and>
               h ! i = ''game_id'' \<and> h ! j = ''play_id'' \<and>
               key_idx_of h = [Some i, Some j] \<and>
               kept = keep_first (\<lambda>w. [normalize_for_key (w ! i), normalize_for_key (w ! j)]) {}
                        (all_mapped_rows h (map entry_rows (list_csvs input_dir)))
        else kept = keep_first (\<lambda>w. sha256 (encode_utf8 (join [CHR 0x00] w))) {}
                      (all_mapped_rows h (map entry_rows (list_csvs input_dir)))"
      using mode by (simp only: mapped_def fs_def)
    show "\<exists>st. process_files sha256 (use_key_of h) (key_idx_of h) h (initial_state h)
                (map entry_rows (list_csvs input_dir)) = Inr st \<and>
             out_f st = h # kept \<and>
             (if use_key_of h then seen_full_rows st = {} else seen_keys st = {})"
      using loop by (simp only: fs_def)
  qed
  then show ?thesis
    by (simp add: KEY_COLUMNS_def)
qed

text \<open>
  A run in semantic-key mode: the second row has the key \<open>(7, a)\<close> of the first and is
  dropped.
\<close>

theorem dedup_mode_fixed_by_header_witness:
  "keep_first (\<lambda>w. [normalize_for_key (w ! 0), normalize_for_key (w ! 1)]) {}
     [['' 7.0 '', ''A'', ''x''], [''7'', ''a'', ''y''], [''8'', ''a'', '''']] =
     [['' 7.0 '', ''A'', ''x''], [''8'', ''a'', '''']] \<and>
   combine_csvs (\<lambda>b. b)
     [\<lparr>entry_name = ''x.csv'', entry_isfile = True,
       entry_rows = [[''game_id'', ''play_id'', ''v''], ['' 7.0 '', ''A'', ''x''],
                     [''7'', ''a'', ''y''], [''8'', ''a'']]\<rparr>] None =
     (Inr \<lparr>files = 1, rows_in = 3, duplicates_skipped = 1, rows_out = 2\<rparr>,
      Some [[''game_id'', ''play_id'', ''v''], ['' 7.0 '', ''A'', ''x''], [''8'', ''a'', '''']]) \<and>
   KEY_COLUMNS = [''game_id'', ''play_id''] \<and>
   (\<exists>hdr rows.
      Some [[''game_id'', ''play_id'', ''v''], ['' 7.0 '', ''A'', ''x''], [''8'', ''a'', '''']] =
        Some (hdr # rows) \<and>
      hdr = first_header (map entry_rows (list_csvs
              [\<lparr>entry_name = ''x.csv'', entry_isfile = True,
                entry_rows = [[''game_id'', ''play_id'', ''v''], ['' 7.0 '', ''A'', ''x''],
                              [''7'', ''a'', ''y''], [''8'', ''a'']]\<rparr>])) \<and>
      (use_key_of hdr \<longleftrightarrow> ''game_id'' \<in> set hdr \<and> ''play_id'' \<in> set hdr) \<and>
      (if ''game_id'' \<in> set hdr \<and> ''play_id'' \<in> set hdr
       then \<exists>i j. i < length hdr \<and> j < length hdr \<and>
              hdr ! i = ''game_id'' \<and> hdr ! j = ''play_id'' \<and>
              key_idx_of hdr = [Some i, Some j] \<and>
              rows = keep_first (\<lambda>w. [normalize_for_key (w ! i), normalize_for_key (w ! j)]) {}
                       (all_mapped_rows hdr (map entry_rows (list_csvs
                          [\<lparr>entry_name = ''x.csv'', entry_isfile = True,
                            entry_rows = [[''game_id'', ''play_id'', ''v''],
                                          ['' 7.0 '', ''A'', ''x''],
                                          [''7'', ''a'', ''y''], [''8'', ''a'']]\<rparr>])))
       else rows = keep_first (\<lambda>w. encode_utf8 (join [CHR 0x00] w)) {}
                     (all_mapped_rows hdr (map entry_rows (list_csvs
                        [\<lparr>entry_name = ''x.csv'', entry_isfile = True,
                          entry_rows = [[''game_id'', ''play_id'', ''v''],
                                        ['' 7.0 '', ''A'', ''x''],
                                        [''7'', ''a'', ''y''], [''8'', ''a'']]\<rparr>])))) \<and>
      (\<exists>st. process_files (\<lambda>b. b) (use_key_of hdr) (key_idx_of hdr) hdr (initial_state hdr)
               (map entry_rows (list_csvs
                  [\<lparr>entry_name = ''x.csv'', entry_isfile = True,
                    entry_rows = [[''game_id'', ''play_id'', ''v''], ['' 7.0 '', ''A'', ''x''],
                                  [''7'', ''a'', ''y''], [''8'', ''a'']]\<rparr>])) = Inr st \<and>
            out_f st = hdr # rows \<and>
            (if use_key_of hdr then seen_full_rows st = {} else seen_keys st = {})))"
proof -
  have k: "keep_first (\<lambda>w. [normalize_for_key (w ! 0), normalize_for_key (w ! 1)]) {}
     [['' 7.0 '', ''A'', ''x''], [''7'', ''a'', ''y''], [''8'', ''a'', '''']] =
     [['' 7.0 '', ''A'', ''x''], [''8'', ''a'', '''']]"
    by (simp add: normalize_for_key_values)
  show ?thesis
    by (rule conjI [OF k conjI [OF key_mode_run dedup_mode_fixed_by_header [OF key_mode_run]]])
qed

section \<open>Reading back a written file\<close>
























section \<open>Merging the merged file again\<close>







section \<open>Floating point: whole numbers below \<open>2 ^ 53\<close> are exact\<close>

lemma bitlen_upper: "n < 2 ^ bitlen n"
proof (induction n rule: bitlen.induct)
  case (1 n)
  show ?case
  proof (cases "n = 0")
    case True
    then show ?thesis by (simp add: bitlen.simps)
  next
    case False
    with 1 have "n div 2 < 2 ^ bitlen (n div 2)" by simp
    then have "n < 2 * 2 ^ bitlen (n div 2)" by linarith
    with False show ?thesis by (subst bitlen.simps) simp
  qed
qed

lemma bitlen_lower: "n \<noteq> 0 \<Longrightarrow> 2 ^ (bitlen n - 1) \<le> n"
proof (induction n rule: bitlen.induct)
  case (1 n)
  show ?case
  proof (cases "n div 2 = 0")
    case True
    with 1(2) have "n = 1" by linarith
    then show ?thesis by (simp add: bitlen.simps)
  next
    case False
    with 1 have ih: "2 ^ (bitlen (n div 2) - 1) \<le> n div 2" by simp
    from False have pos: "bitlen (n div 2) \<noteq> 0" by (subst bitlen.simps) simp
    have "bitlen n = Suc (bitlen (n div 2))"
      using 1(2) by (subst bitlen.simps) simp
    then have "bitlen n - 1 = Suc (bitlen (n div 2) - 1)"
      using pos by simp
    then have "(2::nat) ^ (bitlen n - 1) = 2 * 2 ^ (bitlen (n div 2) - 1)" by simp
    also have "\<dots> \<le> 2 * (n div 2)" using ih by simp
    also have "\<dots> \<le> n" by simp
    finally show ?thesis .
  qed
qed

lemma bitlen_le: "n < 2 ^ k \<Longrightarrow> bitlen n \<le> k"
proof (cases "n = 0")
  case True
  then show ?thesis by (simp add: bitlen.simps)
next
  case False
  assume "n < 2 ^ k"
  with bitlen_lower [OF False] have "(2::nat) ^ (bitlen n - 1) < 2 ^ k"
    by (rule le_less_trans)
  then have "bitlen n - 1 < k"
    by (rule power_less_imp_less_exp [where a = "2::nat", rotated]) simp
  then show ?thesis by simp
qed

lemma bitlen_mult: "bitlen (a * b) \<le> bitlen a + bitlen b"
proof -
  have "a * b < 2 ^ bitlen a * 2 ^ bitlen b"
    using bitlen_upper [of a] bitlen_upper [of b]
    by (metis mult_strict_mono' zero_le)
  then have "a * b < 2 ^ (bitlen a + bitlen b)" by (simp add: power_add)
  then show ?thesis by (rule bitlen_le)
qed

lemma round_half_even_exact: "0 < d \<Longrightarrow> round_half_even (a * d) d = a"
  by (simp add: round_half_even_def)

lemma binary64_of_ratio_whole:
  assumes d: "0 < d" and n: "n < 2 ^ 53"
  shows "is_integer (binary64_of_ratio (n * d) d) \<and> int_of_float (binary64_of_ratio (n * d) d) = n"
proof (cases "n = 0")
  case True
  then show ?thesis by (simp add: binary64_of_ratio_def)
next
  case False
  define c where "c = int (bitlen (n * d)) - int (bitlen d)"
  define E where "E = (if ratio_ge_pow2 (n * d) d c then c else c - 1)"
  define e where "e = max (E - 52) (- 1074)"
  have "bitlen (n * d) \<le> bitlen n + bitlen d" by (rule bitlen_mult)
  moreover have "bitlen n \<le> 53" using n by (rule bitlen_le)
  ultimately have c53: "c \<le> 53" by (simp add: c_def)
  have "E \<le> 52"
  proof (cases "ratio_ge_pow2 (n * d) d c")
    case True
    show ?thesis
    proof (cases "0 \<le> c")
      case c0: True
      with True have "d * 2 ^ nat c \<le> n * d" by (simp add: ratio_ge_pow2_def)
      with d have "2 ^ nat c \<le> n" by (simp add: mult.commute)
      from this n have "(2::nat) ^ nat c < 2 ^ 53" by (rule le_less_trans)
      then have "nat c < 53"
        by (rule power_less_imp_less_exp [where a = "2::nat", rotated]) simp
      with True show ?thesis by (simp add: E_def)
    next
      case False
      with True show ?thesis by (simp add: E_def)
    qed
  next
    case False
    with c53 show ?thesis by (simp add: E_def)
  qed
  then have e0: "e \<le> 0" by (simp add: e_def)
  have m: "scale_round (n * d) d e = n * 2 ^ nat (- e)"
  proof (cases "0 \<le> e")
    case True
    with e0 have "e = 0" by simp
    with d show ?thesis
      by (simp add: scale_round_def round_half_even_exact)
  next
    case False
    have eq: "n * d * 2 ^ nat (- e) = (n * 2 ^ nat (- e)) * d" by (simp add: mult_ac)
    have "round_half_even (n * d * 2 ^ nat (- e)) d = n * 2 ^ nat (- e)"
      unfolding eq using d by (rule round_half_even_exact)
    with False show ?thesis
      by (simp add: scale_round_def)
  qed
  have big: "\<not> (0 \<le> e \<and> 2 ^ 1024 \<le> n * 2 ^ nat (- e) * 2 ^ nat e)"
  proof
    assume a: "0 \<le> e \<and> 2 ^ 1024 \<le> n * 2 ^ nat (- e) * 2 ^ nat e"
    with e0 have "e = 0" by simp
    with a have "(2::nat) ^ 1024 \<le> n" by simp
    moreover have "(2::nat) ^ 53 < 2 ^ 1024" by simp
    ultimately show False using n by linarith
  qed
  have f: "binary64_of_ratio (n * d) d = Finite (n * 2 ^ nat (- e)) e"
    using False d big
    by (simp add: binary64_of_ratio_def Let_def c_def [symmetric] E_def [symmetric]
        e_def [symmetric] m)
  show ?thesis
    using e0 by (simp add: f)
qed

section \<open>Key normalization\<close>

lemma ascii_digit_not_space: "ascii_digit c \<Longrightarrow> \<not> py_isspace c"
  by (auto simp: ascii_digit_def py_isspace_def)

lemma ascii_digit_not_point: "ascii_digit c \<Longrightarrow> c \<noteq> CHR ''.''"
  by (auto simp: ascii_digit_def)

lemma point_not_ascii_digit: "ascii_digit c \<Longrightarrow> CHR ''.'' \<noteq> c"
  by (auto simp: ascii_digit_def)

lemma point_not_space: "\<not> py_isspace CHR ''.''"
  by (simp add: py_isspace_def)

lemma zero_ascii_digit: "ascii_digit CHR ''0''"
  by (simp add: ascii_digit_def)

lemma strip_padded:
  assumes "list_all py_isspace ws1" and "list_all py_isspace ws2"
    and "core \<noteq> []" and "\<not> py_isspace (hd core)" and "\<not> py_isspace (last core)"
  shows "strip (ws1 @ core @ ws2) = core"
proof -
  have "dropWhile py_isspace (ws1 @ core @ ws2) = dropWhile py_isspace (core @ ws2)"
    by (rule dropWhile_append2) (use assms(1) in \<open>simp add: list_all_iff\<close>)
  also have "\<dots> = core @ ws2"
    using assms(3,4) by (cases core) simp_all
  finally have 1: "dropWhile py_isspace (ws1 @ core @ ws2) = core @ ws2" .
  have "dropWhile py_isspace (rev ws2 @ rev core) = dropWhile py_isspace (rev core)"
    by (rule dropWhile_append2) (use assms(2) in \<open>simp add: list_all_iff\<close>)
  also have "\<dots> = rev core"
    using assms(3,5) by (cases core rule: rev_cases) simp_all
  finally have 2: "dropWhile py_isspace (rev ws2 @ rev core) = rev core" .
  show ?thesis
    by (simp add: strip_def 1 2)
qed

lemma decimal_value_snoc:
  "decimal_value (xs @ [y]) = 10 * decimal_value xs + (of_char y - 48)"
  by (simp add: decimal_value_def)

lemma decimal_value_Nil: "decimal_value [] = 0"
  by (simp add: decimal_value_def)

lemma decimal_value_append:
  "decimal_value (xs @ ys) = decimal_value xs * 10 ^ length ys + decimal_value ys"
proof (induction ys rule: rev_induct)
  case Nil
  then show ?case by (simp add: decimal_value_Nil)
next
  case (snoc y ys)
  have "decimal_value (xs @ ys @ [y]) = 10 * decimal_value (xs @ ys) + (of_char y - 48)"
    using decimal_value_snoc [of "xs @ ys" y] by simp
  also have "\<dots> = 10 * (decimal_value xs * 10 ^ length ys + decimal_value ys) + (of_char y - 48)"
    by (simp only: snoc)
  also have "\<dots> = decimal_value xs * 10 ^ length (ys @ [y]) +
                     (10 * decimal_value ys + (of_char y - 48))"
    by (simp add: algebra_simps)
  also have "\<dots> = decimal_value xs * 10 ^ length (ys @ [y]) + decimal_value (ys @ [y])"
    by (simp only: decimal_value_snoc)
  finally show ?case .
qed

lemma decimal_value_zeros: "list_all (\<lambda>c. c = CHR ''0'') zs \<Longrightarrow> decimal_value zs = 0"
  by (induction zs rule: rev_induct) (simp_all add: decimal_value_Nil decimal_value_snoc)

lemma py_float_digits:
  assumes "ds \<noteq> []" and "list_all ascii_digit ds"
  shows "py_float ds = Some (binary64_of_ratio (decimal_value ds) 1)"
proof -
  from assms(2) have "\<forall>c \<in> set ds. c \<noteq> CHR ''.''"
    by (auto simp: list_all_iff dest: ascii_digit_not_point)
  then have tw: "takeWhile (\<lambda>c. c \<noteq> CHR ''.'') ds = ds"
    and dw: "dropWhile (\<lambda>c. c \<noteq> CHR ''.'') ds = []"
    by simp_all
  show ?thesis
    using assms by (simp add: py_float_def Let_def tw dw)
qed

lemma isdigit_digits: "ds \<noteq> [] \<Longrightarrow> list_all ascii_digit ds \<Longrightarrow> isdigit ds"
  by (simp add: isdigit_def py_isdigit_char_def list_all_iff)

lemma remove1_point:
  "list_all ascii_digit ds \<Longrightarrow> remove1 CHR ''.'' (ds @ CHR ''.'' # zs) = ds @ zs"
  by (induction ds) (simp_all add: point_not_ascii_digit)

lemma remove1_no_point:
  "list_all ascii_digit ds \<Longrightarrow> remove1 CHR ''.'' ds = ds"
  by (induction ds) (simp_all add: point_not_ascii_digit)

lemma takeWhile_digits_point:
  "list_all ascii_digit ds \<Longrightarrow> takeWhile (\<lambda>c. c \<noteq> CHR ''.'') (ds @ CHR ''.'' # zs) = ds"
  by (induction ds) (simp_all add: ascii_digit_not_point)

lemma dropWhile_digits_point:
  "list_all ascii_digit ds \<Longrightarrow>
   dropWhile (\<lambda>c. c \<noteq> CHR ''.'') (ds @ CHR ''.'' # zs) = CHR ''.'' # zs"
  by (induction ds) (simp_all add: ascii_digit_not_point)

lemma zeros_ascii_digits: "list_all (\<lambda>c. c = CHR ''0'') zs \<Longrightarrow> list_all ascii_digit zs"
  by (induction zs) (simp_all add: zero_ascii_digit)

lemma decimal_value_digits_zeros:
  "list_all (\<lambda>c. c = CHR ''0'') zs \<Longrightarrow>
   decimal_value (ds @ zs) = decimal_value ds * 10 ^ length zs"
  by (simp only: decimal_value_append decimal_value_zeros add_0_right)

lemma py_float_point_zeros:
  assumes "ds \<noteq> []" and "list_all ascii_digit ds" and "list_all (\<lambda>c. c = CHR ''0'') zs"
  shows "py_float (ds @ CHR ''.'' # zs) =
         Some (binary64_of_ratio (decimal_value ds * 10 ^ length zs) (10 ^ length zs))"
proof -
  have "py_float (ds @ CHR ''.'' # zs) =
        (if list_all ascii_digit (ds @ zs) \<and> ds @ zs \<noteq> []
         then Some (binary64_of_ratio (decimal_value (ds @ zs)) (10 ^ length zs))
         else None)"
    unfolding py_float_def Let_def
    by (simp only: takeWhile_digits_point [OF assms(2)] dropWhile_digits_point [OF assms(2)]
        drop_Suc_Cons drop_0 One_nat_def)
  also have "\<dots> = Some (binary64_of_ratio (decimal_value (ds @ zs)) (10 ^ length zs))"
    using assms(1,2) zeros_ascii_digits [OF assms(3)] by simp
  finally show ?thesis
    by (simp only: decimal_value_digits_zeros [OF assms(3)])
qed

lemma normalize_for_key_unfold:
  assumes "strip val = s" and "isdigit (remove1 CHR ''.'' s)" and "py_float s = Some f"
    and "is_integer f"
  shows "normalize_for_key val = str_nat (int_of_float f)"
  using assms by (simp add: normalize_for_key_def)

lemma normalize_for_key_digits:
  assumes ws: "list_all py_isspace ws1" "list_all py_isspace ws2"
    and ds: "ds \<noteq> []" "list_all ascii_digit ds" and small: "decimal_value ds < 2 ^ 53"
  shows "normalize_for_key (ws1 @ ds @ ws2) = str_nat (decimal_value ds)"
proof -
  from ds have "\<not> py_isspace (hd ds)" and "\<not> py_isspace (last ds)"
    by (auto simp: list_all_iff dest!: ascii_digit_not_space)
  with ws ds(1) have s: "strip (ws1 @ ds @ ws2) = ds"
    by (rule strip_padded)
  have d: "isdigit (remove1 CHR ''.'' ds)"
    using ds by (simp add: remove1_no_point isdigit_digits)
  have f: "py_float ds = Some (binary64_of_ratio (decimal_value ds * 1) 1)"
    using py_float_digits [OF ds] by simp
  have w: "is_integer (binary64_of_ratio (decimal_value ds * 1) 1) \<and>
           int_of_float (binary64_of_ratio (decimal_value ds * 1) 1) = decimal_value ds"
    by (rule binary64_of_ratio_whole [OF _ small]) simp
  from normalize_for_key_unfold [OF s d f] w show ?thesis
    by simp
qed

lemma normalize_for_key_point_zeros:
  assumes ws: "list_all py_isspace ws1" "list_all py_isspace ws2"
    and ds: "ds \<noteq> []" "list_all ascii_digit ds" and small: "decimal_value ds < 2 ^ 53"
    and zs: "list_all (\<lambda>c. c = CHR ''0'') zs"
  shows "normalize_for_key (ws1 @ (ds @ CHR ''.'' # zs) @ ws2) = str_nat (decimal_value ds)"
proof -
  have ne: "ds @ CHR ''.'' # zs \<noteq> []" by simp
  have h: "\<not> py_isspace (hd (ds @ CHR ''.'' # zs))"
    using ds by (cases ds) (simp_all add: ascii_digit_not_space)
  have l: "\<not> py_isspace (last (ds @ CHR ''.'' # zs))"
  proof (cases zs rule: rev_cases)
    case Nil
    then show ?thesis by (simp add: point_not_space)
  next
    case (snoc ys y)
    with zs have "y = CHR ''0''" by simp
    with snoc show ?thesis
      by (simp add: ascii_digit_not_space zero_ascii_digit)
  qed
  from ws ne h l have s: "strip (ws1 @ (ds @ CHR ''.'' # zs) @ ws2) = ds @ CHR ''.'' # zs"
    by (rule strip_padded)
  have "isdigit (ds @ zs)"
    using ds zeros_ascii_digits [OF zs] by (intro isdigit_digits) simp_all
  then have d: "isdigit (remove1 CHR ''.'' (ds @ CHR ''.'' # zs))"
    by (simp only: remove1_point [OF ds(2)])
  have w: "is_integer (binary64_of_ratio (decimal_value ds * 10 ^ length zs) (10 ^ length zs)) \<and>
           int_of_float (binary64_of_ratio (decimal_value ds * 10 ^ length zs) (10 ^ length zs)) =
             decimal_value ds"
    by (rule binary64_of_ratio_whole [OF _ small]) simp
  from normalize_for_key_unfold [OF s d py_float_point_zeros [OF ds zs]] w show ?thesis
    by simp
qed

lemma normalize_for_key_not_numeric:
  "\<not> isdigit (remove1 CHR ''.'' (strip val)) \<Longrightarrow> normalize_for_key val = lower (strip val)"
  by (simp add: normalize_for_key_def)

lemma decimal_value_str_nat: "decimal_value (str_nat n) = n"
proof (induction n rule: str_nat.induct)
  case (1 n)
  show ?case
  proof (cases "n < 10")
    case True
    then have "str_nat n = [char_of (48 + n)]"
      by (subst str_nat.simps) simp
    moreover from True have "(48 + n) mod 256 = 48 + n" by simp
    ultimately show ?thesis
      by (simp add: decimal_value_def)
  next
    case False
    with 1 have ih: "decimal_value (str_nat (n div 10)) = n div 10" by simp
    from False have "str_nat n = str_nat (n div 10) @ [char_of (48 + n mod 10)]"
      by (subst str_nat.simps) simp
    moreover have "(48 + n mod 10) mod 256 = 48 + n mod 10"
      by (rule mod_less) (simp add: less_le_trans [OF add_strict_left_mono [OF mod_less_divisor]])
    ultimately show ?thesis
      using ih by (simp add: decimal_value_snoc)
  qed
qed

text \<open>
  C4. Key normalization maps \<open>7\<close>, \<open>7.0\<close> and \<open> 7.00 \<close> to \<open>7\<close>, and \<open>ABC\<close> and \<open>abc\<close> to the
  same string. In general it trims whitespace; a trimmed value made of digits and at most
  one point whose floating-point parse has no fractional part becomes the decimal
  representation of that parsed value; every other value is lowercased. In particular,
  ASCII digits denoting a number below \<open>2 ^ 53\<close>, with nothing or a point and only zeros
  after them, become the decimal representation of that number (\<open>str_nat\<close>, the inverse
  of reading a decimal numeral).
\<close>

theorem normalize_for_key_characterisation:
  "normalize_for_key ''7'' = ''7'' \<and>
   normalize_for_key ''7.0'' = ''7'' \<and>
   normalize_for_key '' 7.00 '' = ''7'' \<and>
   normalize_for_key ''ABC'' = normalize_for_key ''abc'' \<and>
   (list_all py_isspace ws1 \<and> list_all py_isspace ws2 \<and> ds \<noteq> [] \<and> list_all ascii_digit ds \<and>
    decimal_value ds < 2 ^ 53 \<and> list_all (\<lambda>c. c = CHR ''0'') zs \<longrightarrow>
      normalize_for_key (ws1 @ ds @ ws2) = str_nat (decimal_value ds) \<and>
      normalize_for_key (ws1 @ (ds @ CHR ''.'' # zs) @ ws2) = str_nat (decimal_value ds) \<and>
      decimal_value (str_nat (decimal_value ds)) = decimal_value ds) \<and>
   (\<forall>f. isdigit (remove1 CHR ''.'' (strip val)) \<and> py_float (strip val) = Some f \<and> is_integer f \<longrightarrow>
      normalize_for_key val = str_nat (int_of_float f)) \<and>
   (\<not> (isdigit (remove1 CHR ''.'' (strip val)) \<and>
       (\<exists>f. py_float (strip val) = Some f \<and> is_integer f)) \<longrightarrow>
      normalize_for_key val = lower (strip val))"
proof (intro conjI impI allI)
  show "normalize_for_key ''7'' = ''7''" by (simp add: norm_defs)
  show "normalize_for_key ''7.0'' = ''7''" by (simp add: norm_defs)
  show "normalize_for_key '' 7.00 '' = ''7''" by (simp add: norm_defs)
  show "normalize_for_key ''ABC'' = normalize_for_key ''abc''" by (simp add: norm_defs)
next
  assume a: "list_all py_isspace ws1 \<and> list_all py_isspace ws2 \<and> ds \<noteq> [] \<and>
    list_all ascii_digit ds \<and> decimal_value ds < 2 ^ 53 \<and> list_all (\<lambda>c. c = CHR ''0'') zs"
  then show "normalize_for_key (ws1 @ ds @ ws2) = str_nat (decimal_value ds)"
    by (intro normalize_for_key_digits) simp_all
  from a show "normalize_for_key (ws1 @ (ds @ CHR ''.'' # zs) @ ws2) = str_nat (decimal_value ds)"
    by (intro normalize_for_key_point_zeros) simp_all
  show "decimal_value (str_nat (decimal_value ds)) = decimal_value ds"
    by (rule decimal_value_str_nat)
next
  fix f
  assume "isdigit (remove1 CHR ''.'' (strip val)) \<and> py_float (strip val) = Some f \<and> is_integer f"
  then show "normalize_for_key val = str_nat (int_of_float f)"
    by (simp add: normalize_for_key_def)
next
  assume "\<not> (isdigit (remove1 CHR ''.'' (strip val)) \<and>
       (\<exists>f. py_float (strip val) = Some f \<and> is_integer f))"
  then show "normalize_for_key val = lower (strip val)"
    by (auto simp: normalize_for_key_def Let_def split: option.splits)
qed

theorem normalize_for_key_characterisation_witness:
  "normalize_for_key '' 12 '' = ''12'' \<and>
   normalize_for_key '' 12.00 '' = ''12'' \<and>
   normalize_for_key '' Ab,C '' = ''ab,c''"
  using normalize_for_key_characterisation [of "'' ''" "'' ''" "''12''" "''00''" "'' Ab,C ''"]
  by (simp add: norm_defs)

section \<open>No read out of range\<close>

text \<open>
  \<open>combine_csvs\<close> raises nothing but its two \<open>SystemExit\<close>s: the key columns are read at
  indices of the canonical header, and every output row has the length of that header.
\<close>

lemma combine_csvs_total:
  "fst (combine_csvs sha256 input_dir output_csv) = Inl NoInputFiles \<or>
   fst (combine_csvs sha256 input_dir output_csv) = Inl EmptyInputSet \<or>
   (\<exists>t. fst (combine_csvs sha256 input_dir output_csv) = Inr t)"
proof (cases "list_csvs input_dir = []")
  case True
  then show ?thesis by (simp add: combine_csvs_def)
next
  case ne: False
  show ?thesis
  proof (cases "first_header (map entry_rows (list_csvs input_dir)) = []")
    case True
    with ne show ?thesis by (simp add: combine_csvs_def Let_def)
  next
    case False
    from combine_csvs_success [OF ne refl False, of sha256 output_csv] show ?thesis
      by simp
  qed
qed

lemma select_cells_in_range:
  "\<forall>i \<in> set keep_idx. i < length row \<Longrightarrow> select_cells row keep_idx = Inr (map ((!) row) keep_idx)"
  by (induction keep_idx) simp_all

lemma filter_rows_no_IndexError:
  "\<forall>i \<in> set keep_idx. i < length header \<Longrightarrow>
   filter_rows d header keep_idx rows \<noteq> Inl IndexError"
proof (induction rows)
  case Nil
  then show ?case by simp
next
  case (Cons row rows)
  have "length header \<le> length (pad_row header row)"
    by (simp add: pad_row_def)
  with Cons.prems have "\<forall>i \<in> set keep_idx. i < length (pad_row header row)"
    by auto
  then have "select_cells (pad_row header row) keep_idx =
             Inr (map ((!) (pad_row header row)) keep_idx)"
    by (rule select_cells_in_range)
  with Cons show ?case
    by (auto simp: writerow_def split: sum.splits)
qed

lemma enumerate_filter_in_range:
  "\<forall>i \<in> set (map fst (filter P (enumerate 0 header))). i < length header"
  by (auto simp: in_set_enumerate_eq)

text \<open>
  \<open>remove_unnamed_columns\<close> raises no \<open>IndexError\<close>, whatever the dialect and the rows
  of the file: its only exception is the \<open>csv.Error\<close> of the writer.
\<close>

lemma remove_unnamed_columns_no_IndexError:
  "remove_unnamed_columns d rows \<noteq> Inl IndexError"
proof (cases rows)
  case Nil
  then show ?thesis by (simp add: remove_unnamed_columns_def)
next
  case (Cons header data)
  define keep_idx where
    "keep_idx = map fst (filter (\<lambda>(i, h). \<not> startswith (strip h) ''Unnamed'') (enumerate 0 header))"
  have r: "\<forall>i \<in> set keep_idx. i < length header"
    unfolding keep_idx_def by (rule enumerate_filter_in_range)
  show ?thesis
    using Cons select_cells_in_range [OF r] filter_rows_no_IndexError [OF r, of d data]
    by (auto simp: remove_unnamed_columns_def Let_def keep_idx_def [symmetric] writerow_def
        split: sum.splits)
qed

section \<open>The precision of the parse\<close>

text \<open>
  The parse has 53 bits of precision: beyond it the value emitted is the one of the
  double, and a fraction too small for the double is not seen.
\<close>

lemma normalize_for_key_precision:
  "normalize_for_key ''9007199254740993'' = ''9007199254740992''"
  "normalize_for_key ''1.0000000000000000001'' = ''1''"
  "normalize_for_key ''0.5'' = ''0.5''"
  by (simp_all add: norm_defs)

end
